
theory Spec2Isabelle
  imports Main "HOL-Library.Word" "HOL-Library.Multiset"
begin

section \<open>libnaomi: thread table, scheduler, syscalls and the message codec\<close>

text \<open>
  A shallow embedding of \<^verbatim>\<open>homebrew/libnaomi/thread.c\<close> and
  \<^verbatim>\<open>homebrew/netbootmenu/message.c\<close>.

  Conventions of the embedding.
  \<^item> A pointer is a \<open>32 word\<close> (the SH-4 is a 32-bit machine and the code itself casts
    \<^verbatim>\<open>uint32_t\<close> to pointers); the null pointer is \<open>0\<close>.
  \<^item> \<^verbatim>\<open>static thread_t *threads[MAX_THREADS]\<close> is a list of slots, \<open>None\<close> for a null
    slot and \<open>Some t\<close> for a slot pointing to the descriptor \<open>t\<close>. Every descriptor is
    pointed to by exactly one slot, so the pointer comparison
    \<^verbatim>\<open>threads[i] == current_thread\<close> is the comparison of slot indices.
    \<^verbatim>\<open>MAX_THREADS\<close> is declared in a header that is not part of the sources at hand: it is
    the length of the list.
  \<^item> \<^verbatim>\<open>int\<close> fields that only hold the \<^verbatim>\<open>#define\<close>d codes (thread state, scheduling
    request) are \<open>int\<close>; the priority, which syscall 6 fills from a 32-bit register, is a
    \<open>32 word\<close> compared as a signed number (\<open>sint\<close>).
  \<^item> The addresses answered by \<^verbatim>\<open>malloc\<close> and by the saved-frame allocator are arguments
    of the operations that store them. An access through a null pointer is the result
    \<open>Inl NullPointerAccess\<close>.
  \<^item> A source name that starts with an underscore loses it (\<^verbatim>\<open>_thread_schedule\<close> is
    \<open>thread_schedule\<close>); \<^verbatim>\<open>_thread_create\<close>, which would clash with the public
    \<^verbatim>\<open>thread_create\<close>, is \<open>thread_create_internal\<close>.
\<close>

datatype fault = NullPointerAccess | OutOfBounds | DivisionByZero

subsection \<open>Thread descriptors\<close>

definition THREAD_STATE_STOPPED :: int where "THREAD_STATE_STOPPED = 0"

definition THREAD_STATE_RUNNING :: int where "THREAD_STATE_RUNNING = 1"

definition THREAD_STATE_FINISHED :: int where "THREAD_STATE_FINISHED = 2"

definition THREAD_STATE_ZOMBIE :: int where "THREAD_STATE_ZOMBIE = 3"

definition THREAD_STATE_WAITING :: int where "THREAD_STATE_WAITING = 4"

definition INT_MIN :: "32 word" where "INT_MIN = 0x80000000"

record thread =
  name :: string
  id :: "32 word"
  priority :: "32 word"
  state :: int
  waiting_semaphore :: "32 word"
  waiting_thread :: "32 word"
  main_thread :: int
  "context" :: "32 word"
  stack :: "32 word"
  retval :: "32 word"

type_synonym thread_table = "thread option list"

text \<open>
  \<^verbatim>\<open>_thread_find_by_context\<close> and \<^verbatim>\<open>_thread_find_by_id\<close>: the first slot, in slot order,
  that is not null and whose descriptor matches. The result is the slot (with its
  descriptor), \<open>None\<close> for the null pointer. The second argument is the loop variable
  \<^verbatim>\<open>i\<close> at the head of the remaining slots.
\<close>

primrec find_by_context_from :: "nat \<Rightarrow> thread_table \<Rightarrow> 32 word \<Rightarrow> (nat \<times> thread) option" where
  "find_by_context_from i [] c = None"
| "find_by_context_from i (s # ss) c =
     (case s of
        None \<Rightarrow> find_by_context_from (Suc i) ss c
      | Some t \<Rightarrow> if context t = c then Some (i, t) else find_by_context_from (Suc i) ss c)"

definition thread_find_by_context :: "thread_table \<Rightarrow> 32 word \<Rightarrow> (nat \<times> thread) option" where
  "thread_find_by_context ts c = find_by_context_from 0 ts c"

primrec find_by_id_from :: "nat \<Rightarrow> thread_table \<Rightarrow> 32 word \<Rightarrow> (nat \<times> thread) option" where
  "find_by_id_from i [] tid = None"
| "find_by_id_from i (s # ss) tid =
     (case s of
        None \<Rightarrow> find_by_id_from (Suc i) ss tid
      | Some t \<Rightarrow> if id t = tid then Some (i, t) else find_by_id_from (Suc i) ss tid)"

definition thread_find_by_id :: "thread_table \<Rightarrow> 32 word \<Rightarrow> (nat \<times> thread) option" where
  "thread_find_by_id ts tid = find_by_id_from 0 ts tid"

subsection \<open>The scheduler\<close>

definition THREAD_SCHEDULE_CURRENT :: int where "THREAD_SCHEDULE_CURRENT = 0"

definition THREAD_SCHEDULE_OTHER :: int where "THREAD_SCHEDULE_OTHER = 1"

definition THREAD_SCHEDULE_ANY :: int where "THREAD_SCHEDULE_ANY = 2"

text \<open>
  First loop of \<^verbatim>\<open>_thread_schedule\<close>: the highest priority that is schedulable. \<open>cur\<close> is
  the slot of the current thread, \<open>i\<close> the loop variable, \<open>p\<close> the running maximum.
\<close>

primrec max_priority_from :: "nat \<Rightarrow> int \<Rightarrow> nat \<Rightarrow> thread_table \<Rightarrow> 32 word \<Rightarrow> 32 word" where
  "max_priority_from cur request i [] p = p"
| "max_priority_from cur request i (s # ss) p =
     (case s of
        None \<Rightarrow> max_priority_from cur request (Suc i) ss p
      | Some t \<Rightarrow>
          if request = THREAD_SCHEDULE_OTHER \<and> i = cur
          then max_priority_from cur request (Suc i) ss p
          else if state t \<noteq> THREAD_STATE_RUNNING
          then max_priority_from cur request (Suc i) ss p
          else max_priority_from cur request (Suc i) ss
                 (if sint p > sint (priority t) then p else priority t))"

text \<open>
  Second loop: round robin within the priority band. \<open>found\<close> is the flag of the source;
  the result is the slot returned from inside the loop, \<open>None\<close> when the loop runs to
  its end.
\<close>

primrec round_robin_from ::
  "nat \<Rightarrow> 32 word \<Rightarrow> nat \<Rightarrow> thread_table \<Rightarrow> bool \<Rightarrow> (nat \<times> thread) option" where
  "round_robin_from cur p i [] found = None"
| "round_robin_from cur p i (s # ss) found =
     (case s of
        None \<Rightarrow> round_robin_from cur p (Suc i) ss found
      | Some t \<Rightarrow>
          if priority t \<noteq> p then round_robin_from cur p (Suc i) ss found
          else if found then Some (i, t)
          else round_robin_from cur p (Suc i) ss (i = cur))"

text \<open>Third loop: the first slot of the band.\<close>

primrec first_in_band_from :: "32 word \<Rightarrow> nat \<Rightarrow> thread_table \<Rightarrow> (nat \<times> thread) option" where
  "first_in_band_from p i [] = None"
| "first_in_band_from p i (s # ss) =
     (case s of
        None \<Rightarrow> first_in_band_from p (Suc i) ss
      | Some t \<Rightarrow>
          if priority t \<noteq> p then first_in_band_from p (Suc i) ss else Some (i, t))"

text \<open>
  \<open>schedule_pick\<close> is the body of \<^verbatim>\<open>_thread_schedule\<close> up to the choice of the descriptor
  whose context is returned: \<open>None\<close> stands for the two places where the source returns
  the supplied \<^verbatim>\<open>state\<close> itself (current thread not found; no slot in the band).
\<close>

definition schedule_priority :: "thread_table \<Rightarrow> nat \<Rightarrow> int \<Rightarrow> 32 word" where
  "schedule_priority ts cur request = max_priority_from cur request 0 ts INT_MIN"

definition schedule_pick :: "thread_table \<Rightarrow> 32 word \<Rightarrow> int \<Rightarrow> (nat \<times> thread) option" where
  "schedule_pick ts st request =
     (case thread_find_by_context ts st of
        None \<Rightarrow> None
      | Some (cur, current_thread) \<Rightarrow>
          if request = THREAD_SCHEDULE_CURRENT \<and> state current_thread = THREAD_STATE_RUNNING
          then Some (cur, current_thread)
          else
            let p = schedule_priority ts cur request in
            (case round_robin_from cur p 0 ts False of
               Some r \<Rightarrow> Some r
             | None \<Rightarrow> first_in_band_from p 0 ts))"

definition thread_schedule :: "thread_table \<Rightarrow> 32 word \<Rightarrow> int \<Rightarrow> 32 word" where
  "thread_schedule ts st request =
     (case schedule_pick ts st request of
        None \<Rightarrow> st
      | Some (i, t) \<Rightarrow> context t)"

subsection \<open>Kernel state, creation and initialisation\<close>

text \<open>
  The process-wide variables of \<^verbatim>\<open>thread.c\<close>. \<open>cells\<close> is the memory holding the
  \<^verbatim>\<open>uint32_t\<close> counter cells, by address; \<open>frames\<close> gives, for the address of a saved
  register frame, its \<^verbatim>\<open>gp_regs\<close> array. (The semaphore table is only ever cleared by the
  functions modelled here and is left out.)
\<close>

record kstate =
  threads :: thread_table
  thread_counter :: "32 word"
  global_counters :: "32 word list"
  cells :: "32 word \<Rightarrow> 32 word"
  frames :: "32 word \<Rightarrow> nat \<Rightarrow> 32 word"

primrec first_empty_from :: "nat \<Rightarrow> thread_table \<Rightarrow> nat option" where
  "first_empty_from i [] = None"
| "first_empty_from i (s # ss) =
     (case s of None \<Rightarrow> Some i | Some t \<Rightarrow> first_empty_from (Suc i) ss)"

text \<open>
  \<^verbatim>\<open>_thread_create\<close>: \<^verbatim>\<open>memset\<close> clears the fresh descriptor, \<^verbatim>\<open>strncpy\<close> copies at most
  63 characters of the name. The result is the slot of the new descriptor, \<open>None\<close> for
  the null pointer returned when no slot is free.
\<close>

definition thread_create_internal ::
  "string \<Rightarrow> 32 word \<Rightarrow> kstate \<Rightarrow> (nat \<times> thread) option \<times> kstate" where
  "thread_create_internal nm prio s =
     (case first_empty_from 0 (threads s) of
        None \<Rightarrow> (None, s)
      | Some i \<Rightarrow>
          let t = \<lparr>name = take 63 nm, id = thread_counter s, priority = prio,
                   state = THREAD_STATE_STOPPED, waiting_semaphore = 0, waiting_thread = 0,
                   main_thread = 0, context = 0, stack = 0, retval = 0\<rparr>
          in (Some (i, t),
              s\<lparr>threads := (threads s)[i := Some t],
                thread_counter := thread_counter s + 1\<rparr>))"

text \<open>
  \<^verbatim>\<open>thread_create\<close>. \<open>function\<close> and \<open>param\<close> only travel into the run context handed
  to the frame allocator; \<open>stack_mem\<close> is the address of the stack from \<^verbatim>\<open>malloc\<close> and
  \<open>new_state\<close> the frame answered by \<^verbatim>\<open>_irq_new_state\<close>. The source does not test the
  pointer returned by \<^verbatim>\<open>_thread_create\<close> before it writes \<^verbatim>\<open>thread->stack\<close>.
\<close>

definition thread_create ::
  "string \<Rightarrow> 32 word \<Rightarrow> 32 word \<Rightarrow> 32 word \<Rightarrow> 32 word \<Rightarrow> kstate \<Rightarrow> fault + (32 word \<times> kstate)" where
  "thread_create nm function param stack_mem new_state s =
     (case thread_create_internal nm 0 s of
        (None, s1) \<Rightarrow> Inl NullPointerAccess
      | (Some (i, t), s1) \<Rightarrow>
          Inr (id t, s1\<lparr>threads := (threads s1)[i := Some (t\<lparr>stack := stack_mem, context := new_state\<rparr>)]\<rparr>))"

text \<open>\<^verbatim>\<open>_thread_register_main\<close>.\<close>

definition thread_register_main :: "32 word \<Rightarrow> kstate \<Rightarrow> fault + kstate" where
  "thread_register_main st s =
     (case thread_create_internal ''main'' 0 s of
        (None, s1) \<Rightarrow> Inl NullPointerAccess
      | (Some (i, t), s1) \<Rightarrow>
          Inr (s1\<lparr>threads := (threads s1)[i := Some (t\<lparr>stack := 0x0E000000, context := st,
                  state := THREAD_STATE_RUNNING, main_thread := 1\<rparr>)]\<rparr>))"

text \<open>
  \<^verbatim>\<open>_thread_init\<close>, for tables of \<open>max_threads\<close> and \<open>max_global_counters\<close> slots: the
  idle thread is the first descriptor created, with id 1 and priority \<^verbatim>\<open>INT_MIN\<close>.
\<close>

definition thread_init ::
  "nat \<Rightarrow> nat \<Rightarrow> 32 word \<Rightarrow> 32 word \<Rightarrow> kstate \<Rightarrow> fault + kstate" where
  "thread_init max_threads max_global_counters stack_mem new_state s =
     (let s0 = s\<lparr>threads := replicate max_threads None, thread_counter := 1,
                  global_counters := replicate max_global_counters 0\<rparr>
      in case thread_create_internal ''idle'' INT_MIN s0 of
           (None, s1) \<Rightarrow> Inl NullPointerAccess
         | (Some (i, t), s1) \<Rightarrow>
             Inr (s1\<lparr>threads := (threads s1)[i := Some (t\<lparr>stack := stack_mem, context := new_state,
                     state := THREAD_STATE_RUNNING\<rparr>)]\<rparr>))"

text \<open>\<^verbatim>\<open>thread_destroy\<close>: the first slot with the id is cleared.\<close>

definition thread_destroy :: "32 word \<Rightarrow> kstate \<Rightarrow> kstate" where
  "thread_destroy tid s =
     (case thread_find_by_id (threads s) tid of
        None \<Rightarrow> s
      | Some (i, t) \<Rightarrow> s\<lparr>threads := (threads s)[i := None]\<rparr>)"

subsection \<open>Global counters\<close>

text \<open>
  \<^verbatim>\<open>_global_counter_find\<close>: the stored pointer equal to the argument, the null pointer
  when there is none.
\<close>

primrec global_counter_find :: "32 word list \<Rightarrow> 32 word \<Rightarrow> 32 word" where
  "global_counter_find [] counter = 0"
| "global_counter_find (g # gs) counter =
     (if g \<noteq> 0 \<and> g = counter then g else global_counter_find gs counter)"

primrec first_null_from :: "nat \<Rightarrow> 32 word list \<Rightarrow> nat option" where
  "first_null_from i [] = None"
| "first_null_from i (g # gs) = (if g = 0 then Some i else first_null_from (Suc i) gs)"

text \<open>
  \<^verbatim>\<open>global_counter_init\<close>; \<open>mem\<close> is the address answered by \<^verbatim>\<open>malloc\<close>, which is
  called only once a free slot is found.
\<close>

definition global_counter_init :: "32 word \<Rightarrow> 32 word \<Rightarrow> kstate \<Rightarrow> fault + (32 word \<times> kstate)" where
  "global_counter_init initial_value mem s =
     (case first_null_from 0 (global_counters s) of
        None \<Rightarrow> Inr (0, s)
      | Some i \<Rightarrow>
          if mem = 0 then Inl NullPointerAccess
          else Inr (mem, s\<lparr>cells := (cells s)(mem := initial_value),
                           global_counters := (global_counters s)[i := mem]\<rparr>))"

subsection \<open>The syscall dispatcher\<close>

text \<open>
  A descriptor reached through \<^verbatim>\<open>_thread_find_by_id\<close> is updated in its slot.
\<close>

definition update_thread :: "nat \<Rightarrow> thread \<Rightarrow> kstate \<Rightarrow> kstate" where
  "update_thread i t s = s\<lparr>threads := (threads s)[i := Some t]\<rparr>"

definition set_gp_reg :: "32 word \<Rightarrow> nat \<Rightarrow> 32 word \<Rightarrow> kstate \<Rightarrow> kstate" where
  "set_gp_reg frame r v s = s\<lparr>frames := (frames s)(frame := (frames s frame)(r := v))\<rparr>"

text \<open>
  The \<^verbatim>\<open>switch\<close> of \<^verbatim>\<open>_syscall_trapa\<close>: the new state and the scheduling request.
\<close>

definition syscall_effect :: "32 word \<Rightarrow> 32 word \<Rightarrow> kstate \<Rightarrow> kstate \<times> int" where
  "syscall_effect current which s =
     (if which = 0 then
        (let counter = global_counter_find (global_counters s) (frames s current 4)
         in (if counter \<noteq> 0 then s\<lparr>cells := (cells s)(counter := cells s counter + 1)\<rparr> else s,
             THREAD_SCHEDULE_CURRENT))
      else if which = 1 then
        (let counter = global_counter_find (global_counters s) (frames s current 4)
         in (if counter \<noteq> 0 \<and> cells s counter > 0
             then s\<lparr>cells := (cells s)(counter := cells s counter - 1)\<rparr> else s,
             THREAD_SCHEDULE_CURRENT))
      else if which = 2 then
        (let counter = global_counter_find (global_counters s) (frames s current 4)
         in (if counter \<noteq> 0 then set_gp_reg current 0 (cells s counter) s
             else set_gp_reg current 0 0 s,
             THREAD_SCHEDULE_CURRENT))
      else if which = 3 then (s, THREAD_SCHEDULE_OTHER)
      else if which = 4 then
        (case thread_find_by_id (threads s) (frames s current 4) of
           Some (i, t) \<Rightarrow>
             (if state t = THREAD_STATE_STOPPED
              then update_thread i (t\<lparr>state := THREAD_STATE_RUNNING\<rparr>) s else s,
              THREAD_SCHEDULE_ANY)
         | None \<Rightarrow> (s, THREAD_SCHEDULE_ANY))
      else if which = 5 then
        (case thread_find_by_id (threads s) (frames s current 4) of
           Some (i, t) \<Rightarrow>
             (if state t = THREAD_STATE_RUNNING
              then update_thread i (t\<lparr>state := THREAD_STATE_STOPPED\<rparr>) s else s,
              THREAD_SCHEDULE_ANY)
         | None \<Rightarrow> (s, THREAD_SCHEDULE_ANY))
      else if which = 6 then
        (case thread_find_by_id (threads s) (frames s current 4) of
           Some (i, t) \<Rightarrow>
             (update_thread i (t\<lparr>priority := frames s current 5\<rparr>) s, THREAD_SCHEDULE_ANY)
         | None \<Rightarrow> (s, THREAD_SCHEDULE_ANY))
      else if which = 7 then
        (case thread_find_by_context (threads s) current of
           Some (i, t) \<Rightarrow> (set_gp_reg current 0 (id t) s, THREAD_SCHEDULE_CURRENT)
         | None \<Rightarrow> (set_gp_reg current 0 0 s, THREAD_SCHEDULE_CURRENT))
      else (s, THREAD_SCHEDULE_CURRENT))"

definition syscall_trapa :: "32 word \<Rightarrow> 32 word \<Rightarrow> kstate \<Rightarrow> 32 word \<times> kstate" where
  "syscall_trapa current which s =
     (case syscall_effect current which s of
        (s', schedule) \<Rightarrow> (thread_schedule (threads s') current schedule, s'))"

definition syscall_timer :: "32 word \<Rightarrow> kstate \<Rightarrow> 32 word" where
  "syscall_timer current s = thread_schedule (threads s) current THREAD_SCHEDULE_CURRENT"

text \<open>\<^verbatim>\<open>global_counter_free\<close>: the first slot holding the pointer is cleared.\<close>

primrec counter_slot_from :: "nat \<Rightarrow> 32 word list \<Rightarrow> 32 word \<Rightarrow> nat option" where
  "counter_slot_from i [] counter = None"
| "counter_slot_from i (g # gs) counter =
     (if g \<noteq> 0 \<and> g = counter then Some i else counter_slot_from (Suc i) gs counter)"

definition global_counter_free :: "32 word \<Rightarrow> kstate \<Rightarrow> kstate" where
  "global_counter_free counter s =
     (case counter_slot_from 0 (global_counters s) counter of
        None \<Rightarrow> s
      | Some i \<Rightarrow> s\<lparr>global_counters := (global_counters s)[i := 0]\<rparr>)"

subsection \<open>Runs of operations\<close>

text \<open>
  What user code can do to the kernel state, one operation at a time. \<open>Trap\<close> is one
  of the wrappers around \<^verbatim>\<open>trapa\<close> (\<^verbatim>\<open>thread_stop(tid)\<close> and the like): the caller's
  arguments are in the registers r4 and r5 of the frame \<open>current\<close> saved by the trap,
  and \<^verbatim>\<open>_syscall_trapa\<close> runs on that frame. A run stops at the first fault.
\<close>

datatype kernel_op =
    Trap "32 word" "32 word" "32 word" "32 word"
  | ThreadCreate string "32 word" "32 word" "32 word" "32 word"
  | ThreadDestroy "32 word"
  | CounterInit "32 word" "32 word"
  | CounterFree "32 word"

fun apply_op :: "kernel_op \<Rightarrow> kstate \<Rightarrow> fault + kstate" where
  "apply_op (Trap current which r4 r5) s =
     Inr (snd (syscall_trapa current which (set_gp_reg current 5 r5 (set_gp_reg current 4 r4 s))))"
| "apply_op (ThreadCreate nm function param stack_mem new_state) s =
     (case thread_create nm function param stack_mem new_state s of
        Inl f \<Rightarrow> Inl f
      | Inr (tid, s') \<Rightarrow> Inr s')"
| "apply_op (ThreadDestroy tid) s = Inr (thread_destroy tid s)"
| "apply_op (CounterInit initial_value mem) s =
     (case global_counter_init initial_value mem s of
        Inl f \<Rightarrow> Inl f
      | Inr (counter, s') \<Rightarrow> Inr s')"
| "apply_op (CounterFree counter) s = Inr (global_counter_free counter s)"

fun run_ops :: "kernel_op list \<Rightarrow> kstate \<Rightarrow> fault + kstate" where
  "run_ops [] s = Inr s"
| "run_ops (op # ops) s = (case apply_op op s of Inl f \<Rightarrow> Inl f | Inr s' \<Rightarrow> run_ops ops s')"

text \<open>
  An operation is aimed at the thread id \<open>tid\<close> when it is \<^verbatim>\<open>thread_stop\<close> (trap 5),
  \<^verbatim>\<open>thread_priority\<close> (trap 6) or \<^verbatim>\<open>thread_destroy\<close> called with that id.
\<close>

fun aimed_at :: "32 word \<Rightarrow> kernel_op \<Rightarrow> bool" where
  "aimed_at tid (Trap current which r4 r5) = ((which = 5 \<or> which = 6) \<and> r4 = tid)"
| "aimed_at tid (ThreadDestroy tid') = (tid' = tid)"
| "aimed_at tid op = False"

text \<open>The idle thread sits in the first slot, with id 1, and is Running.\<close>

definition idle_thread_running :: "kstate \<Rightarrow> bool" where
  "idle_thread_running s =
     (case threads s of
        Some t # rest \<Rightarrow> id t = 1 \<and> priority t = INT_MIN \<and> state t = THREAD_STATE_RUNNING
      | _ \<Rightarrow> False)"

text \<open>
  The increment (trap 0) and decrement (trap 1) of the counter at the address \<open>c\<close>; the
  net number of increments of a run, which is the number of its increments minus the
  number of its decrements; and the word stored in the counter at \<open>c\<close>, the
  \<^verbatim>\<open>*counter\<close> of the dispatcher.
\<close>

fun counter_op :: "32 word \<Rightarrow> kernel_op \<Rightarrow> bool" where
  "counter_op c (Trap current which r4 r5) = ((which = 0 \<or> which = 1) \<and> r4 = c)"
| "counter_op c op = False"

fun is_increment :: "kernel_op \<Rightarrow> bool" where
  "is_increment (Trap current which r4 r5) = (which = 0)"
| "is_increment op = False"

fun is_decrement :: "kernel_op \<Rightarrow> bool" where
  "is_decrement (Trap current which r4 r5) = (which = 1)"
| "is_decrement op = False"

definition net_increments :: "kernel_op list \<Rightarrow> int" where
  "net_increments ops =
     int (length (filter is_increment ops)) - int (length (filter is_decrement ops))"

definition counter_value :: "32 word \<Rightarrow> kstate \<Rightarrow> 32 word" where
  "counter_value c s = cells s c"

section \<open>The message codec\<close>

text \<open>
  A packet is the list of its bytes. \<^verbatim>\<open>MAX_PACKET_LENGTH\<close> and
  \<^verbatim>\<open>MAX_OUTSTANDING_PACKETS\<close> come from \<^verbatim>\<open>packet.h\<close>, which is not part of the sources
  at hand: the functions below take \<open>mdl\<close>, the value of the macro
  \<^verbatim>\<open>MAX_MESSAGE_DATA_LENGTH\<close> (\<^verbatim>\<open>MAX_PACKET_LENGTH - MESSAGE_HEADER_LENGTH\<close>), as an
  argument, and \<^verbatim>\<open>MAX_OUTSTANDING_PACKETS\<close> is the number of slots of the peek window.
  The payload \<^verbatim>\<open>(data, length)\<close> of the source is a list of bytes with its length.
\<close>

type_synonym packet = "8 word list"

definition MAX_MESSAGE_LENGTH :: nat where "MAX_MESSAGE_LENGTH = 0xFFFF"

definition MESSAGE_HEADER_LENGTH :: nat where "MESSAGE_HEADER_LENGTH = 8"

definition MESSAGE_ID_LOC :: nat where "MESSAGE_ID_LOC = 0"

definition MESSAGE_SEQ_LOC :: nat where "MESSAGE_SEQ_LOC = 2"

definition MESSAGE_LEN_LOC :: nat where "MESSAGE_LEN_LOC = 4"

definition MESSAGE_LOC_LOC :: nat where "MESSAGE_LOC_LOC = 6"

definition MESSAGE_DATA_LOC :: nat where "MESSAGE_DATA_LOC = 8"

text \<open>
  \<^verbatim>\<open>memcpy\<close> of a \<^verbatim>\<open>uint16_t\<close> to and from a byte buffer, on the little-endian SH-4.
\<close>

definition put_u16 :: "16 word \<Rightarrow> packet" where
  "put_u16 v = [ucast v, ucast (drop_bit 8 v)]"

definition get_u16 :: "packet \<Rightarrow> nat \<Rightarrow> 16 word" where
  "get_u16 p loc = word_cat (p ! (loc + 1)) (p ! loc)"

subsection \<open>Sending\<close>

text \<open>
  The \<^verbatim>\<open>for\<close> loop of \<^verbatim>\<open>message_send\<close>, with \<open>loc\<close> its loop variable. The transport is
  the argument \<open>packetlib_send\<close>, a function from the state of the transport and a packet
  to the return code and the new state of the transport. The result is \<open>False\<close> when the
  loop is left by \<^verbatim>\<open>return -4\<close> and \<open>True\<close> when it runs to its end; the loop need not
  end (when \<open>mdl = 0\<close> and every send succeeds), which is the result \<open>None\<close>.
\<close>

partial_function (option) send_fragments ::
  "('t \<Rightarrow> packet \<Rightarrow> int \<times> 't) \<Rightarrow> nat \<Rightarrow> 16 word \<Rightarrow> 16 word \<Rightarrow> 8 word list \<Rightarrow> nat \<Rightarrow> 't
     \<Rightarrow> (bool \<times> 't) option" where
  "send_fragments packetlib_send mdl type sequence data loc tr =
     (if loc = 0 \<or> loc < length data then
        (let packet_len = (if length data - loc > mdl then mdl else length data - loc);
             buffer = put_u16 type @ put_u16 sequence @ put_u16 (of_nat (length data))
                        @ put_u16 (of_nat loc) @ take packet_len (drop loc data)
         in case packetlib_send tr buffer of
              (rc, tr') \<Rightarrow>
                if rc \<noteq> 0 then Some (False, tr')
                else send_fragments packetlib_send mdl type sequence data (loc + mdl) tr')
      else Some (True, tr))"

declare send_fragments.simps [code]

text \<open>The \<^verbatim>\<open>static uint16_t sequence = 1\<close> and its update after the loop.\<close>

definition sequence_initial :: "16 word" where
  "sequence_initial = 1"

definition next_sequence :: "16 word \<Rightarrow> 16 word" where
  "next_sequence sequence = (if sequence + 1 = 0 then 1 else sequence + 1)"

text \<open>
  \<^verbatim>\<open>message_send\<close>: the state is the static sequence counter and the state of the
  transport; the result is the return code and the new state.
\<close>

definition message_send ::
  "('t \<Rightarrow> packet \<Rightarrow> int \<times> 't) \<Rightarrow> nat \<Rightarrow> 16 word \<Rightarrow> 8 word list \<Rightarrow> 16 word \<times> 't
     \<Rightarrow> (int \<times> 16 word \<times> 't) option" where
  "message_send packetlib_send mdl type data st =
     (case st of (sequence, tr) \<Rightarrow>
        if length data > MAX_MESSAGE_LENGTH then Some (- 3, sequence, tr)
        else
          (case send_fragments packetlib_send mdl type sequence data 0 tr of
             None \<Rightarrow> None
           | Some (False, tr') \<Rightarrow> Some (- 4, sequence, tr')
           | Some (True, tr') \<Rightarrow> Some (0, next_sequence sequence, tr')))"

text \<open>
  A run of sends, one after the other, whatever each returns: the return codes, and the
  state after the last send.
\<close>

fun send_messages ::
  "('t \<Rightarrow> packet \<Rightarrow> int \<times> 't) \<Rightarrow> nat \<Rightarrow> (16 word \<times> 8 word list) list \<Rightarrow> 16 word \<times> 't
     \<Rightarrow> (int list \<times> 16 word \<times> 't) option" where
  "send_messages packetlib_send mdl [] st = Some ([], st)"
| "send_messages packetlib_send mdl ((type, data) # ms) st =
     (case message_send packetlib_send mdl type data st of
        None \<Rightarrow> None
      | Some (rc, st') \<Rightarrow>
          (case send_messages packetlib_send mdl ms st' of
             None \<Rightarrow> None
           | Some (rcs, st'') \<Rightarrow> Some (rc # rcs, st'')))"

text \<open>
  What the sender is meant to put on the wire (section 4.6 of the specification): for
  each offset in 0, D, 2D, ... below the length, and for the offset 0 in any case, the
  header (type, sequence, length, offset) followed by up to D bytes of the payload from
  that offset on; and the hand-over of a list of packets to the transport, one by one,
  up to the first failure.
\<close>

definition fragment :: "nat \<Rightarrow> 16 word \<Rightarrow> 16 word \<Rightarrow> 8 word list \<Rightarrow> nat \<Rightarrow> packet" where
  "fragment mdl type sequence data loc =
     put_u16 type @ put_u16 sequence @ put_u16 (of_nat (length data)) @ put_u16 (of_nat loc)
       @ take mdl (drop loc data)"

definition fragment_count :: "nat \<Rightarrow> nat \<Rightarrow> nat" where
  "fragment_count mdl len = max 1 ((len + (mdl - 1)) div mdl)"

definition fragments :: "nat \<Rightarrow> 16 word \<Rightarrow> 16 word \<Rightarrow> 8 word list \<Rightarrow> packet list" where
  "fragments mdl type sequence data =
     map (\<lambda>k. fragment mdl type sequence data (k * mdl)) [0..<fragment_count mdl (length data)]"

fun hand_over :: "('t \<Rightarrow> packet \<Rightarrow> int \<times> 't) \<Rightarrow> packet list \<Rightarrow> 't \<Rightarrow> bool \<times> 't" where
  "hand_over packetlib_send [] tr = (True, tr)"
| "hand_over packetlib_send (p # ps) tr =
     (case packetlib_send tr p of
        (rc, tr') \<Rightarrow> if rc \<noteq> 0 then (False, tr') else hand_over packetlib_send ps tr')"

subsection \<open>The peek window\<close>

type_synonym window = "packet option list"

text \<open>
  Modelled from the spec: the packet transport of \<^verbatim>\<open>packet.h\<close>, whose code is not part
  of the sources at hand. "peek packet slot i (0..N-1) returning pointer+length or empty;
  discard packet slot i": the window is the list of its slots, \<open>None\<close> for an empty one.
\<close>

definition packetlib_peek :: "window \<Rightarrow> nat \<Rightarrow> packet option" where
  "packetlib_peek w pkt = w ! pkt"

definition packetlib_discard :: "window \<Rightarrow> nat \<Rightarrow> window" where
  "packetlib_discard w pkt = w[pkt := None]"

text \<open>
  Modelled from the spec: a loopback transport for "sending via a loopback transport and
  then receiving". A sent packet lands in the first empty slot of the peek window; the
  send fails with a non-zero code when the window is full.
\<close>

primrec first_free_slot :: "nat \<Rightarrow> window \<Rightarrow> nat option" where
  "first_free_slot i [] = None"
| "first_free_slot i (s # ss) = (case s of None \<Rightarrow> Some i | Some p \<Rightarrow> first_free_slot (Suc i) ss)"

definition loopback_send :: "window \<Rightarrow> packet \<Rightarrow> int \<times> window" where
  "loopback_send w p =
     (case first_free_slot 0 w of None \<Rightarrow> (- 1, w) | Some i \<Rightarrow> (0, w[i := Some p]))"

text \<open>A transport that writes down what it is sent and fails once \<open>n\<close> packets are through.\<close>

definition limited_send :: "packet list \<times> nat \<Rightarrow> packet \<Rightarrow> int \<times> (packet list \<times> nat)" where
  "limited_send tr p =
     (case tr of (sent, n) \<Rightarrow> if n = 0 then (- 1, (sent, n)) else (0, (sent @ [p], n - 1)))"

subsection \<open>Receiving\<close>

text \<open>
  The three arrays \<^verbatim>\<open>seen_packet_sequences\<close>, \<^verbatim>\<open>seen_positions\<close> and
  \<^verbatim>\<open>seen_packet_lengths\<close> are one list of entries; \<open>seen_positions\<close> is \<open>None\<close> for the
  null pointer and otherwise the bytes of the allocated array.
\<close>

record seen =
  seen_packet_sequences :: "16 word"
  seen_positions :: "8 word list option"
  seen_packet_lengths :: "16 word"

definition seen_empty :: seen where
  "seen_empty = \<lparr>seen_packet_sequences = 0, seen_positions = None, seen_packet_lengths = 0\<rparr>"

definition packets_needed :: "nat \<Rightarrow> 16 word \<Rightarrow> nat" where
  "packets_needed mdl msg_length = (unat msg_length + (mdl - 1)) div mdl"

text \<open>
  The inner loop "find the positions data for this sequence": the index, and the entry
  as it is after the loop (created when the loop meets a free entry first). \<open>None\<close> is
  the index \<^verbatim>\<open>-1\<close>.
\<close>

primrec seen_index_from :: "nat \<Rightarrow> seen list \<Rightarrow> 16 word \<Rightarrow> 16 word \<Rightarrow> nat \<Rightarrow> (nat \<times> seen) option" where
  "seen_index_from i [] sequence msg_length num_packets_needed = None"
| "seen_index_from i (e # es) sequence msg_length num_packets_needed =
     (if seen_packet_sequences e = sequence then Some (i, e)
      else if seen_packet_sequences e = 0 then
        Some (i, \<lparr>seen_packet_sequences = sequence,
                  seen_positions = (if num_packets_needed > 0
                                    then Some (replicate num_packets_needed 0) else None),
                  seen_packet_lengths = msg_length\<rparr>)
      else seen_index_from (Suc i) es sequence msg_length num_packets_needed)"

text \<open>\<^verbatim>\<open>seen_positions[index][k] = 1\<close>.\<close>

definition mark_position :: "seen list \<Rightarrow> nat \<Rightarrow> nat \<Rightarrow> fault + seen list" where
  "mark_position tab index k =
     (case seen_positions (tab ! index) of
        None \<Rightarrow> Inl NullPointerAccess
      | Some ps \<Rightarrow>
          if k < length ps
          then Inr (tab[index := (tab ! index)\<lparr>seen_positions := Some (ps[k := 1])\<rparr>])
          else Inl OutOfBounds)"

text \<open>One round of the first loop of \<^verbatim>\<open>message_recv\<close>, for the slot \<open>pkt\<close>.\<close>

definition scan_packet :: "nat \<Rightarrow> nat \<Rightarrow> window \<times> seen list \<Rightarrow> fault + (window \<times> seen list)" where
  "scan_packet mdl pkt st =
     (case st of (w, tab) \<Rightarrow>
        (case packetlib_peek w pkt of
           None \<Rightarrow> Inr (w, tab)
         | Some pkt_data \<Rightarrow>
             if length pkt_data < MESSAGE_HEADER_LENGTH then Inr (packetlib_discard w pkt, tab)
             else
               let sequence = get_u16 pkt_data MESSAGE_SEQ_LOC in
               if sequence = 0 then Inr (packetlib_discard w pkt, tab)
               else if mdl = 0 then Inl DivisionByZero
               else
                 let msg_length = get_u16 pkt_data MESSAGE_LEN_LOC;
                     num_packets_needed = packets_needed mdl msg_length
                 in (case seen_index_from 0 tab sequence msg_length num_packets_needed of
                       None \<Rightarrow> Inr (w, tab)
                     | Some (index, e) \<Rightarrow>
                         if num_packets_needed > 0
                         then (case mark_position (tab[index := e]) index
                                      (unat (get_u16 pkt_data MESSAGE_LOC_LOC) div mdl) of
                                 Inl f \<Rightarrow> Inl f
                               | Inr tab' \<Rightarrow> Inr (w, tab'))
                         else Inr (w, tab[index := e]))))"

fun scan_packets :: "nat \<Rightarrow> nat list \<Rightarrow> window \<times> seen list \<Rightarrow> fault + (window \<times> seen list)" where
  "scan_packets mdl [] st = Inr st"
| "scan_packets mdl (pkt # pkts) st =
     (case scan_packet mdl pkt st of Inl f \<Rightarrow> Inl f | Inr st' \<Rightarrow> scan_packets mdl pkts st')"

text \<open>
  The readiness test of the second loop: all of the first \<open>n\<close> positions are set.
\<close>

definition positions_ready :: "8 word list option \<Rightarrow> nat \<Rightarrow> fault + bool" where
  "positions_ready positions n =
     (case positions of
        None \<Rightarrow> if n = 0 then Inr True else Inl NullPointerAccess
      | Some ps \<Rightarrow>
          if list_all (\<lambda>b. b \<noteq> 0) (take n ps)
          then (if n \<le> length ps then Inr True else Inl OutOfBounds)
          else Inr False)"

text \<open>
  The second loop up to its choice: the first entry, in table order, that is ready;
  \<open>None\<close> when the loop ends (at the first free entry or at the end of the table)
  without one.
\<close>

primrec find_ready :: "nat \<Rightarrow> seen list \<Rightarrow> fault + seen option" where
  "find_ready mdl [] = Inr None"
| "find_ready mdl (e # es) =
     (if seen_packet_sequences e = 0 then Inr None
      else if mdl = 0 then Inl DivisionByZero
      else
        (case positions_ready (seen_positions e) (packets_needed mdl (seen_packet_lengths e)) of
           Inl f \<Rightarrow> Inl f
         | Inr True \<Rightarrow> Inr (Some e)
         | Inr False \<Rightarrow> find_ready mdl es))"

text \<open>
  The destination buffer comes from \<^verbatim>\<open>malloc\<close> and is not initialised: a byte of it is
  \<open>None\<close> until it is written. \<^verbatim>\<open>memcpy(reassembled_data + location, ..., n)\<close>:
\<close>

definition copy_into :: "8 word option list \<Rightarrow> nat \<Rightarrow> 8 word list \<Rightarrow> fault + 8 word option list" where
  "copy_into buf location bytes =
     (if location + length bytes \<le> length buf
      then Inr (take location buf @ map Some bytes @ drop (location + length bytes) buf)
      else Inl OutOfBounds)"

text \<open>
  One round of the loop that gathers the packets of the ready entry \<open>e\<close>: the state is the
  window, the caller's \<^verbatim>\<open>*type\<close> and the destination buffer (\<open>None\<close> for the null
  pointer).
\<close>

definition gather_packet ::
  "seen \<Rightarrow> nat \<Rightarrow> window \<times> 16 word \<times> 8 word option list option
     \<Rightarrow> fault + (window \<times> 16 word \<times> 8 word option list option)" where
  "gather_packet e pkt st =
     (case st of (w, type, reassembled_data) \<Rightarrow>
        (case packetlib_peek w pkt of
           None \<Rightarrow> Inr st
         | Some pkt_data \<Rightarrow>
             if length pkt_data < MESSAGE_HEADER_LENGTH then Inr st
             else if get_u16 pkt_data MESSAGE_SEQ_LOC \<noteq> seen_packet_sequences e then Inr st
             else
               let type' = get_u16 pkt_data MESSAGE_ID_LOC in
               if seen_packet_lengths e > 0 then
                 (case reassembled_data of
                    None \<Rightarrow> Inl NullPointerAccess
                  | Some buf \<Rightarrow>
                      (case copy_into buf (unat (get_u16 pkt_data MESSAGE_LOC_LOC))
                              (drop MESSAGE_DATA_LOC pkt_data) of
                         Inl f \<Rightarrow> Inl f
                       | Inr buf' \<Rightarrow> Inr (packetlib_discard w pkt, type', Some buf')))
               else Inr (packetlib_discard w pkt, type', reassembled_data)))"

fun gather_packets ::
  "seen \<Rightarrow> nat list \<Rightarrow> window \<times> 16 word \<times> 8 word option list option
     \<Rightarrow> fault + (window \<times> 16 word \<times> 8 word option list option)" where
  "gather_packets e [] st = Inr st"
| "gather_packets e (pkt # pkts) st =
     (case gather_packet e pkt st of Inl f \<Rightarrow> Inl f | Inr st' \<Rightarrow> gather_packets e pkts st')"

text \<open>
  The caller's variables behind the three pointers of \<^verbatim>\<open>message_recv\<close>; \<open>rv_data\<close> is
  \<open>None\<close> for the null pointer and otherwise the bytes of the buffer it points to.
\<close>

record recv_vars =
  rv_type :: "16 word"
  rv_data :: "8 word option list option"
  rv_length :: nat

text \<open>
  \<^verbatim>\<open>message_recv\<close> on the window \<open>w\<close>: the return code, the caller's variables and the
  window after the call.
\<close>

definition message_recv :: "nat \<Rightarrow> window \<Rightarrow> recv_vars \<Rightarrow> fault + (int \<times> recv_vars \<times> window)" where
  "message_recv mdl w vars =
     (case scan_packets mdl [0..<length w] (w, replicate (length w) seen_empty) of
        Inl f \<Rightarrow> Inl f
      | Inr (w1, tab) \<Rightarrow>
          (case find_ready mdl tab of
             Inl f \<Rightarrow> Inl f
           | Inr None \<Rightarrow> Inr (- 5, vars, w1)
           | Inr (Some e) \<Rightarrow>
               let reassembled_data =
                     (if seen_packet_lengths e > 0
                      then Some (replicate (unat (seen_packet_lengths e)) None) else None)
               in (case gather_packets e [0..<length w1] (w1, rv_type vars, reassembled_data) of
                     Inl f \<Rightarrow> Inl f
                   | Inr (w2, type, buf) \<Rightarrow>
                       Inr (0, \<lparr>rv_type = type, rv_data = buf,
                                rv_length = unat (seen_packet_lengths e)\<rparr>, w2))))"

subsection \<open>Windows and buffers\<close>

text \<open>
  A bogus packet is one that is shorter than the header or carries the sequence 0;
  \<open>toss_bogus\<close> is the window with the bogus packets gone.
\<close>

definition bogus_packet :: "packet \<Rightarrow> bool" where
  "bogus_packet p = (length p < MESSAGE_HEADER_LENGTH \<or> get_u16 p MESSAGE_SEQ_LOC = 0)"

definition toss_bogus :: "window \<Rightarrow> window" where
  "toss_bogus w =
     map (\<lambda>s. case s of None \<Rightarrow> None | Some p \<Rightarrow> if bogus_packet p then None else Some p) w"

text \<open>
  The position array in which exactly the positions in \<open>K\<close> are set, the table entry
  of a sequence with that array, and the destination buffer in which exactly the bytes of
  the fragments in \<open>K\<close> are written.
\<close>

definition marks :: "nat \<Rightarrow> nat set \<Rightarrow> 8 word list" where
  "marks nn K = map (\<lambda>k. if k \<in> K then 1 else 0) [0..<nn]"

definition seen_entry :: "16 word \<Rightarrow> 16 word \<Rightarrow> nat \<Rightarrow> nat set \<Rightarrow> seen" where
  "seen_entry sequence msg_length nn K =
     \<lparr>seen_packet_sequences = sequence,
      seen_positions = (if nn > 0 then Some (marks nn K) else None),
      seen_packet_lengths = msg_length\<rparr>"

definition filled :: "nat \<Rightarrow> 8 word list \<Rightarrow> nat set \<Rightarrow> 8 word option list" where
  "filled mdl data K = map (\<lambda>j. if j div mdl \<in> K then Some (data ! j) else None) [0..<length data]"

text \<open>
  The fragments of a message met in the first \<open>m\<close> slots of a window; a window in which
  every packet is a fragment of the message; a window that holds every fragment of it.
\<close>

definition fragments_upto ::
  "nat \<Rightarrow> 16 word \<Rightarrow> 16 word \<Rightarrow> 8 word list \<Rightarrow> window \<Rightarrow> nat \<Rightarrow> nat set" where
  "fragments_upto mdl type sequence data w m =
     {k. k < fragment_count mdl (length data)
         \<and> (\<exists>i<m. w ! i = Some (fragment mdl type sequence data (k * mdl)))}"

definition only_fragments :: "nat \<Rightarrow> 16 word \<Rightarrow> 16 word \<Rightarrow> 8 word list \<Rightarrow> window \<Rightarrow> bool" where
  "only_fragments mdl type sequence data w =
     (\<forall>i<length w. w ! i = None \<or>
        (\<exists>k<fragment_count mdl (length data).
           w ! i = Some (fragment mdl type sequence data (k * mdl))))"

definition all_fragments :: "nat \<Rightarrow> 16 word \<Rightarrow> 16 word \<Rightarrow> 8 word list \<Rightarrow> window \<Rightarrow> bool" where
  "all_fragments mdl type sequence data w =
     (\<forall>k<fragment_count mdl (length data).
        \<exists>i<length w. w ! i = Some (fragment mdl type sequence data (k * mdl)))"

section \<open>Example states\<close>

text \<open>
  The state of a freshly started kernel with room for two threads and one counter, as
  \<^verbatim>\<open>_thread_init\<close> leaves it, and descriptors to fill it with.
\<close>

definition boot_state :: kstate where
  "boot_state = \<lparr>threads = [], thread_counter = 0, global_counters = [],
                  cells = (\<lambda>a. 0), frames = (\<lambda>f r. 0)\<rparr>"

definition idle_thread :: thread where
  "idle_thread = \<lparr>name = ''idle'', id = 1, priority = INT_MIN, state = THREAD_STATE_RUNNING,
     waiting_semaphore = 0, waiting_thread = 0, main_thread = 0, context = 0x1000,
     stack = 0x100, retval = 0\<rparr>"

definition fresh_thread :: "32 word \<Rightarrow> 32 word \<Rightarrow> 32 word \<Rightarrow> thread" where
  "fresh_thread tid stack_mem ctx = \<lparr>name = ''worker'', id = tid, priority = 0, state = THREAD_STATE_STOPPED,
     waiting_semaphore = 0, waiting_thread = 0, main_thread = 0, context = ctx,
     stack = stack_mem, retval = 0\<rparr>"

definition booted_state :: kstate where
  "booted_state = \<lparr>threads = [Some idle_thread, None], thread_counter = 2, global_counters = [0],
                  cells = (\<lambda>a. 0), frames = (\<lambda>f r. 0)\<rparr>"

definition worker :: "32 word \<Rightarrow> 32 word \<Rightarrow> int \<Rightarrow> 32 word \<Rightarrow> thread" where
  "worker tid prio st ctx = \<lparr>name = ''worker'', id = tid, priority = prio, state = st,
     waiting_semaphore = 0, waiting_thread = 0, main_thread = 0, context = ctx,
     stack = 0x200, retval = 0\<rparr>"

definition thread_a :: thread where
  "thread_a = worker 2 0 THREAD_STATE_RUNNING 0x2000"

definition thread_b :: thread where
  "thread_b = worker 3 0 THREAD_STATE_RUNNING 0x3000"

definition thread_b_stopped :: thread where
  "thread_b_stopped = worker 3 0 THREAD_STATE_STOPPED 0x3000"

definition thread_high :: thread where
  "thread_high = worker 3 5 THREAD_STATE_RUNNING 0x3000"

definition table_ab :: thread_table where
  "table_ab = [Some idle_thread, Some thread_a, Some thread_b]"

definition table_a_stopped_b :: thread_table where
  "table_a_stopped_b = [Some idle_thread, Some thread_a, Some thread_b_stopped]"

definition table_a_high :: thread_table where
  "table_a_high = [Some idle_thread, Some thread_a, Some thread_high]"

definition counter_state :: kstate where
  "counter_state = \<lparr>threads = [Some idle_thread, None], thread_counter = 2,
                     global_counters = [0x4000], cells = (\<lambda>a. 0),
                     frames = (\<lambda>f r. if r = 4 then 0x4000 else 0)\<rparr>"

definition full_state :: kstate where
  "full_state = counter_state\<lparr>threads := [Some idle_thread, Some thread_a]\<rparr>"

definition counter_ops :: "kernel_op list" where
  "counter_ops = [Trap 0x1000 1 0x4000 0, Trap 0x1000 0 0x4000 0, Trap 0x1000 0 0x4000 0,
                  Trap 0x1000 1 0x4000 0]"

definition dec_inc_ops :: "kernel_op list" where
  "dec_inc_ops = [Trap 0x1000 1 0x4000 0, Trap 0x1000 0 0x4000 0]"

definition stop_idle_ops :: "kernel_op list" where
  "stop_idle_ops = [ThreadCreate ''worker'' 0x8000 0 0x200 0x2000, Trap 0x1000 4 2 0,
                    Trap 0x2000 5 1 0, Trap 0x2000 5 2 0]"

definition harmless_ops :: "kernel_op list" where
  "harmless_ops = [ThreadCreate ''worker'' 0x8000 0 0x200 0x2000, Trap 0x1000 4 2 0,
                   Trap 0x2000 3 0 0, Trap 0x2000 6 2 7, Trap 0x2000 5 2 0, ThreadDestroy 2]"

text \<open>A payload of 7 bytes.\<close>

definition payload7 :: "8 word list" where
  "payload7 = [1, 2, 3, 4, 5, 6, 7]"

text \<open>
  The caller's variables before a receive; a window with a short packet, a packet of
  sequence 0 and one fragment of an unfinished message; and the three fragments of the
  7-byte payload out of order.
\<close>

definition no_vars :: recv_vars where
  "no_vars = \<lparr>rv_type = 0, rv_data = None, rv_length = 0\<rparr>"

definition stale_window :: window where
  "stale_window = [Some [1, 2, 3], Some [0x34, 0x12, 0, 0, 1, 0, 0, 0, 9],
                   Some [0x34, 0x12, 1, 0, 7, 0, 3, 0, 4, 5, 6]]"

definition shuffled_window :: window where
  "shuffled_window = [None, Some [0x34, 0x12, 1, 0, 7, 0, 6, 0, 7],
                      Some [0x34, 0x12, 1, 0, 7, 0, 0, 0, 1, 2, 3],
                      Some [0x34, 0x12, 1, 0, 7, 0, 3, 0, 4, 5, 6]]"

section \<open>Properties of the thread table\<close>

subsection \<open>Unfolding the definitions\<close>

lemmas example_defs = worker_def thread_a_def thread_b_def thread_b_stopped_def thread_high_def
  table_ab_def table_a_stopped_b_def table_a_high_def idle_thread_def
  THREAD_STATE_RUNNING_def THREAD_STATE_STOPPED_def THREAD_SCHEDULE_CURRENT_def
  THREAD_SCHEDULE_OTHER_def THREAD_SCHEDULE_ANY_def INT_MIN_def

lemmas schedule_defs = schedule_pick_def thread_schedule_def thread_find_by_context_def
  schedule_priority_def Let_def

lemmas kernel_defs = thread_create_def thread_create_internal_def thread_destroy_def
  thread_find_by_id_def syscall_trapa_def syscall_effect_def update_thread_def set_gp_reg_def
  global_counter_init_def global_counter_free_def Let_def

subsection \<open>The table scans\<close>

lemma first_empty_from_Some:
  "first_empty_from k ts = Some i \<Longrightarrow> k \<le> i \<and> i - k < length ts \<and> ts ! (i - k) = None"
proof (induction ts arbitrary: k)
  case Nil
  then show ?case by simp
next
  case (Cons a ts)
  show ?case
  proof (cases a)
    case None
    with Cons.prems show ?thesis by simp
  next
    case (Some t)
    with Cons.prems have "first_empty_from (Suc k) ts = Some i" by simp
    from Cons.IH[OF this] show ?thesis by (auto simp: nth_Cons')
  qed
qed

lemma first_empty_from_None:
  "first_empty_from k ts = None \<longleftrightarrow> None \<notin> set ts"
  by (induction ts arbitrary: k) (auto split: option.splits)

lemma find_by_id_from_Some:
  "find_by_id_from k ts tid = Some (i, t) \<Longrightarrow>
     k \<le> i \<and> i - k < length ts \<and> ts ! (i - k) = Some t \<and> id t = tid"
proof (induction ts arbitrary: k)
  case Nil
  then show ?case by simp
next
  case (Cons a ts)
  show ?case
  proof (cases "\<exists>u. a = Some u \<and> id u = tid")
    case True
    with Cons.prems show ?thesis by auto
  next
    case False
    with Cons.prems have "find_by_id_from (Suc k) ts tid = Some (i, t)"
      by (auto split: option.splits if_splits)
    from Cons.IH[OF this] show ?thesis by (auto simp: nth_Cons')
  qed
qed

lemma find_by_context_from_Some:
  "find_by_context_from k ts c = Some (i, t) \<Longrightarrow>
     k \<le> i \<and> i - k < length ts \<and> ts ! (i - k) = Some t \<and> context t = c"
proof (induction ts arbitrary: k)
  case Nil
  then show ?case by simp
next
  case (Cons a ts)
  show ?case
  proof (cases "\<exists>u. a = Some u \<and> context u = c")
    case True
    with Cons.prems show ?thesis by auto
  next
    case False
    with Cons.prems have "find_by_context_from (Suc k) ts c = Some (i, t)"
      by (auto split: option.splits if_splits)
    from Cons.IH[OF this] show ?thesis by (auto simp: nth_Cons')
  qed
qed

lemma thread_find_by_id_Some:
  "thread_find_by_id ts tid = Some (i, t) \<Longrightarrow> i < length ts \<and> ts ! i = Some t \<and> id t = tid"
  using find_by_id_from_Some[of 0 ts tid i t] by (simp add: thread_find_by_id_def)

lemma thread_find_by_context_Some:
  "thread_find_by_context ts c = Some (i, t) \<Longrightarrow> i < length ts \<and> ts ! i = Some t \<and> context t = c"
  using find_by_context_from_Some[of 0 ts c i t] by (simp add: thread_find_by_context_def)

lemma thread_create_internal_Some:
  assumes "thread_create_internal nm prio s = (Some (i, t), s1)"
  shows "i < length (threads s) \<and> threads s ! i = None \<and> threads s1 = (threads s)[i := Some t]
         \<and> priority t = prio \<and> state t = THREAD_STATE_STOPPED \<and> id t = thread_counter s"
proof -
  from assms obtain j where j: "first_empty_from 0 (threads s) = Some j"
    by (auto simp: thread_create_internal_def split: option.splits)
  from first_empty_from_Some[OF j] have "j < length (threads s)" "threads s ! j = None" by auto
  moreover from assms j have "i = j" by (auto simp: thread_create_internal_def Let_def)
  ultimately show ?thesis using assms j by (auto simp: thread_create_internal_def Let_def)
qed

lemma thread_create_internal_None:
  "fst (thread_create_internal nm prio s) = None \<longleftrightarrow> None \<notin> set (threads s)"
  using first_empty_from_None[of 0 "threads s"]
  by (cases "first_empty_from 0 (threads s)") (auto simp: thread_create_internal_def Let_def)

subsection \<open>Creation\<close>

text \<open>
  C10. A thread allocated through \<^verbatim>\<open>thread_create\<close> has priority 0 and state Stopped,
  whatever its name, entry function and argument, and \<^verbatim>\<open>thread_create\<close> does return one
  whenever the table has a free slot; the idle thread made by \<^verbatim>\<open>_thread_init\<close> is the
  one created with another priority, \<^verbatim>\<open>INT_MIN\<close>.
\<close>

theorem thread_create_priority_state:
  "(thread_create nm function param stack_mem new_state s = Inr (tid, s') \<longrightarrow>
      (\<exists>i t. i < length (threads s) \<and> threads s ! i = None \<and> threads s' = (threads s)[i := Some t]
         \<and> id t = tid \<and> priority t = 0 \<and> state t = THREAD_STATE_STOPPED))
   \<and> (None \<in> set (threads s) \<longrightarrow>
        (\<exists>tid s'. thread_create nm function param stack_mem new_state s = Inr (tid, s')))
   \<and> (thread_init max_threads max_global_counters stack_mem new_state s = Inr s' \<longrightarrow>
        (\<exists>t. threads s' = Some t # replicate (max_threads - 1) None \<and> id t = 1
           \<and> priority t = INT_MIN \<and> state t = THREAD_STATE_RUNNING))"
proof (intro conjI impI)
  assume a: "thread_create nm function param stack_mem new_state s = Inr (tid, s')"
  then obtain i t s1 where c: "thread_create_internal nm 0 s = (Some (i, t), s1)"
    and s': "s' = s1\<lparr>threads := (threads s1)[i := Some (t\<lparr>stack := stack_mem, context := new_state\<rparr>)]\<rparr>"
    and tid: "tid = id t"
    by (auto simp: thread_create_def split: prod.splits option.splits)
  from thread_create_internal_Some[OF c] s' tid
  show "\<exists>i t. i < length (threads s) \<and> threads s ! i = None \<and> threads s' = (threads s)[i := Some t]
         \<and> id t = tid \<and> priority t = 0 \<and> state t = THREAD_STATE_STOPPED"
    by (intro exI[of _ i] exI[of _ "t\<lparr>stack := stack_mem, context := new_state\<rparr>"]) simp
next
  assume "None \<in> set (threads s)"
  then have "fst (thread_create_internal nm 0 s) \<noteq> None"
    by (simp add: thread_create_internal_None)
  then show "\<exists>tid s'. thread_create nm function param stack_mem new_state s = Inr (tid, s')"
    by (auto simp: thread_create_def split: prod.splits option.splits)
next
  assume a: "thread_init max_threads max_global_counters stack_mem new_state s = Inr s'"
  have "max_threads \<noteq> 0"
  proof
    assume "max_threads = 0"
    with a show False by (simp add: thread_init_def thread_create_internal_def)
  qed
  then obtain n where n: "max_threads = Suc n" by (cases max_threads) auto
  with a show "\<exists>t. threads s' = Some t # replicate (max_threads - 1) None \<and> id t = 1
           \<and> priority t = INT_MIN \<and> state t = THREAD_STATE_RUNNING"
    by (auto simp: thread_init_def thread_create_internal_def Let_def)
qed

lemma thread_init_boot_state:
  "thread_init 2 1 0x100 0x1000 boot_state = Inr booted_state"
  by (simp add: thread_init_def thread_create_internal_def Let_def boot_state_def booted_state_def
      idle_thread_def numeral_2_eq_2)

lemma thread_create_booted_state:
  "thread_create ''worker'' 0x8000 0 0x200 0x2000 booted_state =
     Inr (2, booted_state\<lparr>threads := [Some idle_thread, Some (fresh_thread 2 0x200 0x2000)], thread_counter := 3\<rparr>)"
  by (simp add: thread_create_def thread_create_internal_def Let_def booted_state_def fresh_thread_def)

theorem thread_create_priority_state_witness:
  "thread_create ''worker'' 0x8000 0 0x200 0x2000 booted_state =
     Inr (2, booted_state\<lparr>threads := [Some idle_thread, Some (fresh_thread 2 0x200 0x2000)], thread_counter := 3\<rparr>)
   \<and> (\<exists>i t. i < length (threads booted_state) \<and> threads booted_state ! i = None
         \<and> [Some idle_thread, Some (fresh_thread 2 0x200 0x2000)] = (threads booted_state)[i := Some t]
         \<and> id t = 2 \<and> priority t = 0 \<and> state t = THREAD_STATE_STOPPED)
   \<and> None \<in> set (threads booted_state)
   \<and> thread_init 2 1 0x100 0x1000 boot_state = Inr booted_state
   \<and> (\<exists>t. threads booted_state = Some t # replicate (2 - 1) None \<and> id t = 1
           \<and> priority t = INT_MIN \<and> state t = THREAD_STATE_RUNNING)"
proof -
  let ?s' = "booted_state\<lparr>threads := [Some idle_thread, Some (fresh_thread 2 0x200 0x2000)], thread_counter := 3\<rparr>"
  note created = thread_create_priority_state[of "''worker''" "0x8000" 0 "0x200" "0x2000" booted_state 2 ?s',
      THEN conjunct1, rule_format, OF thread_create_booted_state]
  note booted = thread_create_priority_state[of _ _ _ "0x100" "0x1000" boot_state _ booted_state 2 1,
      THEN conjunct2, THEN conjunct2, rule_format, OF thread_init_boot_state]
  have free: "None \<in> set (threads booted_state)"
    by (simp add: booted_state_def)
  from created booted free thread_create_booted_state thread_init_boot_state
  show ?thesis by simp
qed

subsection \<open>The loops of the scheduler\<close>

lemma round_robin_from_Some:
  "round_robin_from cur p i ss found = Some (k, u) \<Longrightarrow>
     i \<le> k \<and> k - i < length ss \<and> ss ! (k - i) = Some u \<and> priority u = p \<and> (\<not> found \<longrightarrow> cur < k)"
proof (induction ss arbitrary: i found)
  case Nil
  then show ?case by simp
next
  case (Cons a ss)
  show ?case
  proof (cases "\<exists>t. a = Some t \<and> priority t = p")
    case False
    with Cons.prems have "round_robin_from cur p (Suc i) ss found = Some (k, u)"
      by (auto split: option.splits if_splits)
    from Cons.IH[OF this] show ?thesis by (auto simp: nth_Cons')
  next
    case True
    then obtain t where t: "a = Some t" "priority t = p" by blast
    show ?thesis
    proof (cases found)
      case True
      with t Cons.prems show ?thesis by auto
    next
      case False
      with t Cons.prems have "round_robin_from cur p (Suc i) ss (i = cur) = Some (k, u)"
        by simp
      from Cons.IH[OF this] show ?thesis by (auto simp: nth_Cons')
    qed
  qed
qed

lemma round_robin_from_found_None:
  "round_robin_from cur p i ss True = None \<Longrightarrow> \<forall>t. Some t \<in> set ss \<longrightarrow> priority t \<noteq> p"
proof (induction ss arbitrary: i)
  case Nil
  then show ?case by simp
next
  case (Cons a ss)
  from Cons.prems have a: "\<forall>t. a = Some t \<longrightarrow> priority t \<noteq> p"
    by (auto split: option.splits if_splits)
  with Cons.prems have "round_robin_from cur p (Suc i) ss True = None"
    by (auto split: option.splits if_splits)
  from Cons.IH[OF this] a show ?case by auto
qed

lemma round_robin_from_None:
  "round_robin_from cur p i ss False = None \<Longrightarrow> i \<le> cur \<Longrightarrow> cur - i < length ss \<Longrightarrow>
   ss ! (cur - i) = Some c \<Longrightarrow> priority c = p \<Longrightarrow>
     \<forall>t. Some t \<in> set (drop (Suc (cur - i)) ss) \<longrightarrow> priority t \<noteq> p"
proof (induction ss arbitrary: i)
  case Nil
  then show ?case by simp
next
  case (Cons a ss)
  show ?case
  proof (cases "i = cur")
    case True
    with Cons.prems have "round_robin_from cur p (Suc i) ss True = None" by simp
    from round_robin_from_found_None[OF this] True show ?thesis by simp
  next
    case False
    with Cons.prems have lt: "Suc i \<le> cur" by simp
    then have d: "cur - i = Suc (cur - Suc i)" by simp
    from False Cons.prems have "round_robin_from cur p (Suc i) ss False = None"
      by (auto split: option.splits if_splits)
    moreover from Cons.prems have "cur - Suc i < length ss" "ss ! (cur - Suc i) = Some c"
      unfolding d by simp_all
    ultimately have "\<forall>t. Some t \<in> set (drop (Suc (cur - Suc i)) ss) \<longrightarrow> priority t \<noteq> p"
      using Cons.IH[of "Suc i"] lt Cons.prems(5) by blast
    then show ?thesis unfolding d by simp
  qed
qed

lemma first_in_band_from_Some:
  "first_in_band_from p i ss = Some (k, u) \<Longrightarrow>
     i \<le> k \<and> k - i < length ss \<and> ss ! (k - i) = Some u \<and> priority u = p
     \<and> (\<forall>t. Some t \<in> set (take (k - i) ss) \<longrightarrow> priority t \<noteq> p)"
proof (induction ss arbitrary: i)
  case Nil
  then show ?case by simp
next
  case (Cons a ss)
  show ?case
  proof (cases "\<exists>t. a = Some t \<and> priority t = p")
    case True
    with Cons.prems show ?thesis by auto
  next
    case False
    with Cons.prems have "first_in_band_from p (Suc i) ss = Some (k, u)"
      by (auto split: option.splits if_splits)
    from Cons.IH[OF this] have ih: "Suc i \<le> k" "k - Suc i < length ss" "ss ! (k - Suc i) = Some u"
      "priority u = p" "\<forall>t. Some t \<in> set (take (k - Suc i) ss) \<longrightarrow> priority t \<noteq> p"
      by auto
    from ih(1) have d: "k - i = Suc (k - Suc i)" by simp
    from ih False show ?thesis unfolding d by auto
  qed
qed

lemma first_in_band_from_None:
  "first_in_band_from p i ss = None \<Longrightarrow> \<forall>t. Some t \<in> set ss \<longrightarrow> priority t \<noteq> p"
proof (induction ss arbitrary: i)
  case Nil
  then show ?case by simp
next
  case (Cons a ss)
  from Cons.prems have a: "\<forall>t. a = Some t \<longrightarrow> priority t \<noteq> p"
    by (auto split: option.splits if_splits)
  with Cons.prems have "first_in_band_from p (Suc i) ss = None"
    by (auto split: option.splits if_splits)
  from Cons.IH[OF this] a show ?case by auto
qed

lemma max_priority_from_ge_start:
  "sint p \<le> sint (max_priority_from cur request i ss p)"
proof (induction ss arbitrary: i p)
  case Nil
  then show ?case by simp
next
  case (Cons a ss)
  show ?case
  proof (cases a)
    case None
    then show ?thesis using Cons.IH[where i="Suc i" and p=p] by simp
  next
    case (Some t)
    show ?thesis
      using Cons.IH[where i="Suc i" and p=p] Cons.IH[where i="Suc i" and p="priority t"] Some
      by (auto simp del: sint_0 sint_numeral)
  qed
qed

lemma max_priority_from_ge:
  "m < length ss \<Longrightarrow> ss ! m = Some t \<Longrightarrow> state t = THREAD_STATE_RUNNING \<Longrightarrow>
   \<not> (request = THREAD_SCHEDULE_OTHER \<and> i + m = cur) \<Longrightarrow>
     sint (priority t) \<le> sint (max_priority_from cur request i ss p)"
proof (induction ss arbitrary: i p m)
  case Nil
  then show ?case by simp
next
  case (Cons a ss)
  show ?case
  proof (cases m)
    case 0
    with Cons.prems have a: "a = Some t" and ne: "\<not> (request = THREAD_SCHEDULE_OTHER \<and> i = cur)"
      by auto
    show ?thesis
    proof (cases "sint p > sint (priority t)")
      case True
      with a ne Cons.prems(3) max_priority_from_ge_start[where p=p and cur=cur and request=request and i="Suc i" and ss=ss]
      show ?thesis by auto
    next
      case False
      with a ne Cons.prems(3) max_priority_from_ge_start[where p="priority t" and cur=cur and request=request and i="Suc i" and ss=ss]
      show ?thesis by auto
    qed
  next
    case (Suc n)
    with Cons.prems have n: "n < length ss" "ss ! n = Some t"
      "\<not> (request = THREAD_SCHEDULE_OTHER \<and> Suc i + n = cur)" by auto
    from Cons.IH[OF n(1) n(2) Cons.prems(3) n(3)]
    have "\<And>q. sint (priority t) \<le> sint (max_priority_from cur request (Suc i) ss q)" .
    then show ?thesis by (auto split: option.splits)
  qed
qed

lemma max_priority_from_attained:
  "max_priority_from cur request i ss p = p \<or>
   (\<exists>m<length ss. \<exists>t. ss ! m = Some t \<and> state t = THREAD_STATE_RUNNING
      \<and> \<not> (request = THREAD_SCHEDULE_OTHER \<and> i + m = cur)
      \<and> priority t = max_priority_from cur request i ss p)"
proof (induction ss arbitrary: i p)
  case Nil
  then show ?case by simp
next
  case (Cons a ss)
  let ?P = "\<lambda>q r. r = q \<or> (\<exists>m<length ss. \<exists>t. ss ! m = Some t \<and> state t = THREAD_STATE_RUNNING
      \<and> \<not> (request = THREAD_SCHEDULE_OTHER \<and> Suc i + m = cur) \<and> priority t = r)"
  have step: "\<And>q. ?P q (max_priority_from cur request (Suc i) ss q)"
    using Cons.IH[of "Suc i"] by simp
  have lift: "\<And>r. (\<exists>m<length ss. \<exists>t. ss ! m = Some t \<and> state t = THREAD_STATE_RUNNING
      \<and> \<not> (request = THREAD_SCHEDULE_OTHER \<and> Suc i + m = cur) \<and> priority t = r) \<Longrightarrow>
      (\<exists>m<length (a # ss). \<exists>t. (a # ss) ! m = Some t \<and> state t = THREAD_STATE_RUNNING
      \<and> \<not> (request = THREAD_SCHEDULE_OTHER \<and> i + m = cur) \<and> priority t = r)"
  proof -
    fix r assume "\<exists>m<length ss. \<exists>t. ss ! m = Some t \<and> state t = THREAD_STATE_RUNNING
      \<and> \<not> (request = THREAD_SCHEDULE_OTHER \<and> Suc i + m = cur) \<and> priority t = r"
    then obtain m t where "m < length ss" "ss ! m = Some t" "state t = THREAD_STATE_RUNNING"
      "\<not> (request = THREAD_SCHEDULE_OTHER \<and> Suc i + m = cur)" "priority t = r" by blast
    then show "\<exists>m<length (a # ss). \<exists>t. (a # ss) ! m = Some t \<and> state t = THREAD_STATE_RUNNING
      \<and> \<not> (request = THREAD_SCHEDULE_OTHER \<and> i + m = cur) \<and> priority t = r"
      by (intro exI[of _ "Suc m"] exI[of _ t]) simp
  qed
  show ?case
  proof (cases "\<exists>t. a = Some t \<and> \<not> (request = THREAD_SCHEDULE_OTHER \<and> i = cur)
                   \<and> state t = THREAD_STATE_RUNNING \<and> \<not> sint p > sint (priority t)")
    case False
    then have eq: "max_priority_from cur request i (a # ss) p = max_priority_from cur request (Suc i) ss p"
      by (auto split: option.splits)
    from step[of p] lift show ?thesis unfolding eq by blast
  next
    case True
    then obtain t where t: "a = Some t" "\<not> (request = THREAD_SCHEDULE_OTHER \<and> i = cur)"
      "state t = THREAD_STATE_RUNNING" "\<not> sint p > sint (priority t)" by blast
    then have eq: "max_priority_from cur request i (a # ss) p
                     = max_priority_from cur request (Suc i) ss (priority t)"
      by auto
    from step[of "priority t"] show ?thesis
    proof
      assume "max_priority_from cur request (Suc i) ss (priority t) = priority t"
      with t eq show ?thesis by (intro disjI2 exI[of _ 0] exI[of _ t]) simp
    next
      assume "\<exists>m<length ss. \<exists>t'. ss ! m = Some t' \<and> state t' = THREAD_STATE_RUNNING
      \<and> \<not> (request = THREAD_SCHEDULE_OTHER \<and> Suc i + m = cur)
      \<and> priority t' = max_priority_from cur request (Suc i) ss (priority t)"
      from lift[OF this] show ?thesis unfolding eq by blast
    qed
  qed
qed

subsection \<open>What the scheduler returns\<close>

lemma round_robin_from_no_band:
  "\<forall>t. Some t \<in> set ss \<longrightarrow> priority t \<noteq> p \<Longrightarrow> round_robin_from cur p i ss found = None"
  by (induction ss arbitrary: i found) (auto split: option.splits)

lemma max_priority_from_none_running:
  "\<forall>t. Some t \<in> set ss \<longrightarrow> state t \<noteq> THREAD_STATE_RUNNING \<Longrightarrow>
     max_priority_from cur request i ss p = p"
  by (induction ss arbitrary: i) (auto split: option.splits)

lemma schedule_pick_band:
  assumes cur: "thread_find_by_context ts st = Some (cur, ct)"
      and nshort: "\<not> (request = THREAD_SCHEDULE_CURRENT \<and> state ct = THREAD_STATE_RUNNING)"
      and member: "Some t \<in> set ts" "priority t = schedule_priority ts cur request"
  shows "\<exists>k u. schedule_pick ts st request = Some (k, u) \<and> k < length ts \<and> ts ! k = Some u
           \<and> priority u = schedule_priority ts cur request"
proof -
  let ?p = "schedule_priority ts cur request"
  have pick: "schedule_pick ts st request =
      (case round_robin_from cur ?p 0 ts False of Some r \<Rightarrow> Some r
       | None \<Rightarrow> first_in_band_from ?p 0 ts)"
    using cur nshort by (auto simp: schedule_pick_def Let_def)
  show ?thesis
  proof (cases "round_robin_from cur ?p 0 ts False")
    case (Some r)
    obtain k u where r: "r = (k, u)" by (cases r)
    from round_robin_from_Some[OF Some[unfolded r]] pick Some r show ?thesis by simp
  next
    case None
    have "first_in_band_from ?p 0 ts \<noteq> None"
      using first_in_band_from_None[of ?p 0 ts] member by blast
    then obtain k u where f: "first_in_band_from ?p 0 ts = Some (k, u)" by auto
    from first_in_band_from_Some[OF f] pick None f show ?thesis by simp
  qed
qed

lemma schedule_priority_cases:
  "schedule_priority ts cur request = INT_MIN \<or>
   (\<exists>j<length ts. \<exists>t. ts ! j = Some t \<and> state t = THREAD_STATE_RUNNING
      \<and> \<not> (request = THREAD_SCHEDULE_OTHER \<and> j = cur)
      \<and> priority t = schedule_priority ts cur request)"
  using max_priority_from_attained[of cur request 0 ts INT_MIN]
  by (simp add: schedule_priority_def)

lemma schedule_priority_ge:
  "j < length ts \<Longrightarrow> ts ! j = Some t \<Longrightarrow> state t = THREAD_STATE_RUNNING \<Longrightarrow>
   \<not> (request = THREAD_SCHEDULE_OTHER \<and> j = cur) \<Longrightarrow>
     sint (priority t) \<le> sint (schedule_priority ts cur request)"
  using max_priority_from_ge[of j ts t request 0 cur INT_MIN]
  by (simp add: schedule_priority_def)

text \<open>
  C1, as amended. When the supplied context belongs to a thread of the table and the
  table holds a thread of priority \<^verbatim>\<open>INT_MIN\<close> (the idle thread), \<^verbatim>\<open>_thread_schedule\<close>
  returns the context of a thread of the table. With the request CURRENT and the current
  thread Running this is the current thread itself, whatever the priorities of the
  others. Otherwise it is a thread whose priority is the band priority: no eligible
  Running thread (eligible leaves out the current thread iff the request is OTHER) has
  a higher priority, and the priority is that of some eligible Running thread or else
  \<^verbatim>\<open>INT_MIN\<close>; the thread returned is Running whenever every thread of that priority in
  the table is.
\<close>

theorem thread_schedule_band:
  assumes cur: "thread_find_by_context ts st = Some (cur, ct)"
      and idle: "\<exists>t. Some t \<in> set ts \<and> priority t = INT_MIN"
  shows "\<exists>k u. schedule_pick ts st request = Some (k, u)
           \<and> thread_schedule ts st request = context u \<and> k < length ts \<and> ts ! k = Some u
           \<and> (request = THREAD_SCHEDULE_CURRENT \<and> state ct = THREAD_STATE_RUNNING
                \<longrightarrow> k = cur \<and> u = ct \<and> state u = THREAD_STATE_RUNNING)
           \<and> (\<not> (request = THREAD_SCHEDULE_CURRENT \<and> state ct = THREAD_STATE_RUNNING)
                \<longrightarrow> priority u = schedule_priority ts cur request
                  \<and> (\<forall>j<length ts. \<forall>t. ts ! j = Some t \<and> state t = THREAD_STATE_RUNNING
                         \<and> \<not> (request = THREAD_SCHEDULE_OTHER \<and> j = cur)
                       \<longrightarrow> sint (priority t) \<le> sint (priority u))
                  \<and> (priority u = INT_MIN \<or>
                     (\<exists>j<length ts. \<exists>t. ts ! j = Some t \<and> state t = THREAD_STATE_RUNNING
                         \<and> \<not> (request = THREAD_SCHEDULE_OTHER \<and> j = cur)
                         \<and> priority t = priority u))
                  \<and> ((\<forall>t. Some t \<in> set ts \<and> priority t = priority u
                         \<longrightarrow> state t = THREAD_STATE_RUNNING)
                       \<longrightarrow> state u = THREAD_STATE_RUNNING))"
proof (cases "request = THREAD_SCHEDULE_CURRENT \<and> state ct = THREAD_STATE_RUNNING")
  case True
  with cur have "schedule_pick ts st request = Some (cur, ct)"
    by (simp add: schedule_pick_def)
  with True thread_find_by_context_Some[OF cur] show ?thesis
    by (simp add: thread_schedule_def)
next
  case False
  let ?p = "schedule_priority ts cur request"
  have "\<exists>t. Some t \<in> set ts \<and> priority t = ?p"
    using schedule_priority_cases[of ts cur request]
  proof
    assume "?p = INT_MIN"
    with idle show ?thesis by simp
  next
    assume "\<exists>j<length ts. \<exists>t. ts ! j = Some t \<and> state t = THREAD_STATE_RUNNING
      \<and> \<not> (request = THREAD_SCHEDULE_OTHER \<and> j = cur) \<and> priority t = ?p"
    then obtain j t where "j < length ts" "ts ! j = Some t" "priority t = ?p" by blast
    then show ?thesis by (metis nth_mem)
  qed
  then obtain t where t: "Some t \<in> set ts" "priority t = ?p" by blast
  from schedule_pick_band[OF cur False t]
  obtain k u where pick: "schedule_pick ts st request = Some (k, u)" "k < length ts"
    "ts ! k = Some u" "priority u = ?p" by blast
  have mem: "Some u \<in> set ts" using pick(2,3) by (metis nth_mem)
  have ge: "\<forall>j<length ts. \<forall>t. ts ! j = Some t \<and> state t = THREAD_STATE_RUNNING
                         \<and> \<not> (request = THREAD_SCHEDULE_OTHER \<and> j = cur)
                       \<longrightarrow> sint (priority t) \<le> sint (priority u)"
    using schedule_priority_ge[of _ ts _ request cur] pick(4) by auto
  have att: "priority u = INT_MIN \<or>
                     (\<exists>j<length ts. \<exists>t. ts ! j = Some t \<and> state t = THREAD_STATE_RUNNING
                         \<and> \<not> (request = THREAD_SCHEDULE_OTHER \<and> j = cur)
                         \<and> priority t = priority u)"
    using schedule_priority_cases[of ts cur request] pick(4) by simp
  have run: "(\<forall>t. Some t \<in> set ts \<and> priority t = priority u \<longrightarrow> state t = THREAD_STATE_RUNNING)
                       \<longrightarrow> state u = THREAD_STATE_RUNNING"
    using mem by blast
  have ctx: "thread_schedule ts st request = context u"
    using pick(1) by (simp add: thread_schedule_def)
  show ?thesis
    using False pick ge att run ctx
    by (intro exI[of _ k] exI[of _ u]) blast
qed

lemma thread_schedule_not_found:
  "thread_find_by_context ts st = None \<Longrightarrow> thread_schedule ts st request = st"
  by (simp add: thread_schedule_def schedule_pick_def)

lemma schedule_other_differs:
  assumes cur: "thread_find_by_context ts st = Some (cur, ct)"
      and other: "j < length ts" "j \<noteq> cur" "ts ! j = Some t" "state t = THREAD_STATE_RUNNING"
                 "priority t = schedule_priority ts cur THREAD_SCHEDULE_OTHER"
  shows "\<exists>k u. schedule_pick ts st THREAD_SCHEDULE_OTHER = Some (k, u) \<and> k \<noteq> cur
           \<and> k < length ts \<and> ts ! k = Some u
           \<and> priority u = schedule_priority ts cur THREAD_SCHEDULE_OTHER
           \<and> thread_schedule ts st THREAD_SCHEDULE_OTHER = context u"
proof -
  let ?p = "schedule_priority ts cur THREAD_SCHEDULE_OTHER"
  note c = thread_find_by_context_Some[OF cur]
  have ne: "THREAD_SCHEDULE_OTHER \<noteq> THREAD_SCHEDULE_CURRENT"
    by (simp add: THREAD_SCHEDULE_OTHER_def THREAD_SCHEDULE_CURRENT_def)
  have pick: "schedule_pick ts st THREAD_SCHEDULE_OTHER =
      (case round_robin_from cur ?p 0 ts False of Some r \<Rightarrow> Some r
       | None \<Rightarrow> first_in_band_from ?p 0 ts)"
    using cur ne by (auto simp: schedule_pick_def Let_def)
  have mem: "Some t \<in> set ts" using other(1,3) by (metis nth_mem)
  have "\<exists>k u. schedule_pick ts st THREAD_SCHEDULE_OTHER = Some (k, u) \<and> k \<noteq> cur
           \<and> k < length ts \<and> ts ! k = Some u \<and> priority u = ?p"
  proof (cases "round_robin_from cur ?p 0 ts False")
    case (Some r)
    obtain k u where r: "r = (k, u)" by (cases r)
    from round_robin_from_Some[OF Some[unfolded r]] pick Some r show ?thesis by simp
  next
    case None
    have "first_in_band_from ?p 0 ts \<noteq> None"
      using first_in_band_from_None[of ?p 0 ts] mem other(5) by blast
    then obtain k u where f: "first_in_band_from ?p 0 ts = Some (k, u)" by auto
    note fb = first_in_band_from_Some[OF f]
    have "k \<noteq> cur"
    proof (cases "priority ct = ?p")
      case False
      with fb c show ?thesis by auto
    next
      case True
      from round_robin_from_None[OF None _ _ _ True, of ] c
      have after: "\<forall>t. Some t \<in> set (drop (Suc cur) ts) \<longrightarrow> priority t \<noteq> ?p" by simp
      have "\<not> cur < j"
      proof
        assume "cur < j"
        then have "ts ! j \<in> set (drop (Suc cur) ts)"
          using other(1) by (auto simp: in_set_conv_nth intro!: exI[of _ "j - Suc cur"])
        with after other(3,5) show False by simp
      qed
      with other(2) have jc: "j < cur" by simp
      have "\<not> j < k"
      proof
        assume "j < k"
        then have "ts ! j \<in> set (take k ts)"
          using other(1) by (auto simp: in_set_conv_nth intro!: exI[of _ j])
        with fb other(3,5) show False by simp
      qed
      with jc show ?thesis by simp
    qed
    with fb pick None f show ?thesis by simp
  qed
  then show ?thesis by (auto simp: thread_schedule_def)
qed

lemma find_a: "thread_find_by_context table_ab 0x2000 = Some (1, thread_a)"
  by (simp add: example_defs schedule_defs)

lemma prio_ab: "schedule_priority table_ab 1 THREAD_SCHEDULE_OTHER = 0"
  by (simp add: example_defs schedule_defs)

lemma pick_ab: "schedule_pick table_ab 0x2000 THREAD_SCHEDULE_OTHER = Some (2, thread_b)"
  by (simp add: example_defs schedule_defs)

text \<open>
  C1 as stated fails: with A (priority 0) and a thread of priority 5 both Running, the
  request CURRENT on A's context returns A, whose priority is not the maximum among the
  eligible Running threads.
\<close>

theorem thread_schedule_prefers_current:
  "schedule_pick table_a_high 0x2000 THREAD_SCHEDULE_CURRENT = Some (1, thread_a)
   \<and> thread_schedule table_a_high 0x2000 THREAD_SCHEDULE_CURRENT = context thread_a
   \<and> table_a_high ! 2 = Some thread_high \<and> state thread_high = THREAD_STATE_RUNNING
   \<and> sint (priority thread_a) < sint (priority thread_high)"
  by (simp add: example_defs schedule_defs)

text \<open>
  The idle thread yields while A is Running and B is Stopped.
\<close>

theorem thread_schedule_band_witness:
  "thread_find_by_context table_a_stopped_b 0x1000 = Some (0, idle_thread)
   \<and> (\<exists>t. Some t \<in> set table_a_stopped_b \<and> priority t = INT_MIN)
   \<and> (\<exists>k u. schedule_pick table_a_stopped_b 0x1000 THREAD_SCHEDULE_OTHER = Some (k, u)
           \<and> thread_schedule table_a_stopped_b 0x1000 THREAD_SCHEDULE_OTHER = context u
           \<and> k < length table_a_stopped_b \<and> table_a_stopped_b ! k = Some u
           \<and> (THREAD_SCHEDULE_OTHER = THREAD_SCHEDULE_CURRENT
                \<and> state idle_thread = THREAD_STATE_RUNNING
                \<longrightarrow> k = 0 \<and> u = idle_thread \<and> state u = THREAD_STATE_RUNNING)
           \<and> (\<not> (THREAD_SCHEDULE_OTHER = THREAD_SCHEDULE_CURRENT
                    \<and> state idle_thread = THREAD_STATE_RUNNING)
                \<longrightarrow> priority u = schedule_priority table_a_stopped_b 0 THREAD_SCHEDULE_OTHER
                  \<and> (\<forall>j<length table_a_stopped_b. \<forall>t. table_a_stopped_b ! j = Some t
                         \<and> state t = THREAD_STATE_RUNNING
                         \<and> \<not> (THREAD_SCHEDULE_OTHER = THREAD_SCHEDULE_OTHER \<and> j = 0)
                       \<longrightarrow> sint (priority t) \<le> sint (priority u))
                  \<and> (priority u = INT_MIN \<or>
                     (\<exists>j<length table_a_stopped_b. \<exists>t. table_a_stopped_b ! j = Some t
                         \<and> state t = THREAD_STATE_RUNNING
                         \<and> \<not> (THREAD_SCHEDULE_OTHER = THREAD_SCHEDULE_OTHER \<and> j = 0)
                         \<and> priority t = priority u))
                  \<and> ((\<forall>t. Some t \<in> set table_a_stopped_b \<and> priority t = priority u
                         \<longrightarrow> state t = THREAD_STATE_RUNNING)
                       \<longrightarrow> state u = THREAD_STATE_RUNNING)))"
proof -
  have h1: "thread_find_by_context table_a_stopped_b 0x1000 = Some (0, idle_thread)"
    by (simp add: example_defs schedule_defs)
  have h2: "\<exists>t. Some t \<in> set table_a_stopped_b \<and> priority t = INT_MIN"
    by (rule exI[of _ idle_thread]) (simp add: example_defs)
  from h1 h2 thread_schedule_band[OF h1 h2, of THREAD_SCHEDULE_OTHER]
  show ?thesis by (intro conjI)
qed

text \<open>
  The second and third loop of \<^verbatim>\<open>_thread_schedule\<close> do not look at the state: with A
  Running and B Stopped at the same priority, the request ANY on A's context returns B.
\<close>

lemma thread_schedule_picks_stopped:
  "schedule_pick table_a_stopped_b 0x2000 THREAD_SCHEDULE_ANY = Some (2, thread_b_stopped)
   \<and> thread_schedule table_a_stopped_b 0x2000 THREAD_SCHEDULE_ANY = context thread_b_stopped
   \<and> state thread_b_stopped = THREAD_STATE_STOPPED"
  by (simp add: example_defs schedule_defs)

lemma scenario_S1:
  assumes "priority idle = INT_MIN" "priority a = 0" "priority b = 0"
    "state idle = THREAD_STATE_RUNNING" "state a = THREAD_STATE_RUNNING" "state b = THREAD_STATE_RUNNING"
    "distinct [context idle, context a, context b]"
  shows "thread_schedule [Some idle, Some a, Some b] (context a) THREAD_SCHEDULE_OTHER = context b
       \<and> thread_schedule [Some idle, Some a, Some b] (context b) THREAD_SCHEDULE_OTHER = context a"
  using assms
  by (simp add: schedule_defs INT_MIN_def THREAD_SCHEDULE_OTHER_def THREAD_SCHEDULE_CURRENT_def)

lemma scenario_S3:
  assumes "priority idle = INT_MIN" "state idle = THREAD_STATE_RUNNING"
    "\<forall>t. Some t \<in> set rest \<longrightarrow> state t \<noteq> THREAD_STATE_RUNNING \<and> priority t \<noteq> INT_MIN"
  shows "thread_schedule (Some idle # rest) (context idle) THREAD_SCHEDULE_OTHER = context idle"
proof -
  have ne: "THREAD_SCHEDULE_OTHER \<noteq> THREAD_SCHEDULE_CURRENT"
    by (simp add: THREAD_SCHEDULE_OTHER_def THREAD_SCHEDULE_CURRENT_def)
  have p: "schedule_priority (Some idle # rest) 0 THREAD_SCHEDULE_OTHER = INT_MIN"
    using max_priority_from_none_running[of rest 0 THREAD_SCHEDULE_OTHER 1 INT_MIN] assms(3)
    by (simp add: schedule_priority_def)
  have rr: "round_robin_from 0 INT_MIN (Suc 0) rest True = None"
    using round_robin_from_no_band[of rest INT_MIN] assms(3) by blast
  show ?thesis
    using assms(1) ne p rr
    by (simp add: thread_schedule_def schedule_pick_def thread_find_by_context_def)
qed

subsection \<open>The idle thread\<close>

lemma idle_thread_running_iff:
  "idle_thread_running s \<longleftrightarrow>
     (\<exists>t rest. threads s = Some t # rest \<and> id t = 1 \<and> priority t = INT_MIN
        \<and> state t = THREAD_STATE_RUNNING)"
  by (auto simp: idle_thread_running_def split: list.splits option.splits)

lemma idle_thread_running_update:
  assumes "idle_thread_running s" "i \<noteq> 0"
  shows "idle_thread_running (s\<lparr>threads := (threads s)[i := x]\<rparr>)"
proof -
  from assms(2) obtain n where "i = Suc n" by (cases i) auto
  with assms(1) show ?thesis by (auto simp: idle_thread_running_iff)
qed

lemma idle_thread_running_frames [simp]:
  "idle_thread_running (set_gp_reg f r v s) = idle_thread_running s"
  by (simp add: idle_thread_running_def set_gp_reg_def)

lemma threads_set_gp_reg [simp]: "threads (set_gp_reg f r v s) = threads s"
  by (simp add: set_gp_reg_def)

lemma found_by_id_not_idle:
  assumes "idle_thread_running s" "thread_find_by_id (threads s) tid = Some (i, t)" "tid \<noteq> 1"
  shows "i \<noteq> 0"
proof
  assume "i = 0"
  with thread_find_by_id_Some[OF assms(2)] assms(1,3) show False
    by (auto simp: idle_thread_running_iff)
qed

lemma found_by_id_idle:
  assumes "idle_thread_running s" "thread_find_by_id (threads s) tid = Some (0, t)"
  shows "state t = THREAD_STATE_RUNNING"
  using thread_find_by_id_Some[OF assms(2)] assms(1) by (auto simp: idle_thread_running_iff)

lemma syscall_effect_idle:
  assumes inv: "idle_thread_running s"
      and safe: "(which = 5 \<or> which = 6) \<longrightarrow> frames s current 4 \<noteq> 1"
  shows "idle_thread_running (fst (syscall_effect current which s))"
proof -
  consider "which = 4" | "which = 5" | "which = 6" | "which \<noteq> 4 \<and> which \<noteq> 5 \<and> which \<noteq> 6"
    by blast
  then show ?thesis
  proof cases
    case 1
    show ?thesis
    proof (cases "thread_find_by_id (threads s) (frames s current 4)")
      case None
      with 1 inv show ?thesis by (simp add: syscall_effect_def)
    next
      case (Some r)
      obtain i t where r: "r = (i, t)" by (cases r)
      show ?thesis
      proof (cases "i = 0")
        case True
        with found_by_id_idle[OF inv Some[unfolded r True]] 1 Some r inv show ?thesis
          by (simp add: syscall_effect_def THREAD_STATE_RUNNING_def THREAD_STATE_STOPPED_def)
      next
        case False
        with 1 Some r inv idle_thread_running_update[OF inv False] show ?thesis
          by (simp add: syscall_effect_def update_thread_def)
      qed
    qed
  next
    case 2
    show ?thesis
    proof (cases "thread_find_by_id (threads s) (frames s current 4)")
      case None
      with 2 inv show ?thesis by (simp add: syscall_effect_def)
    next
      case (Some r)
      obtain i t where r: "r = (i, t)" by (cases r)
      from found_by_id_not_idle[OF inv Some[unfolded r]] safe 2 have "i \<noteq> 0" by simp
      with 2 Some r inv idle_thread_running_update[OF inv this] show ?thesis
        by (simp add: syscall_effect_def update_thread_def)
    qed
  next
    case 3
    show ?thesis
    proof (cases "thread_find_by_id (threads s) (frames s current 4)")
      case None
      with 3 inv show ?thesis by (simp add: syscall_effect_def)
    next
      case (Some r)
      obtain i t where r: "r = (i, t)" by (cases r)
      from found_by_id_not_idle[OF inv Some[unfolded r]] safe 3 have "i \<noteq> 0" by simp
      with 3 Some r inv idle_thread_running_update[OF inv this] show ?thesis
        by (simp add: syscall_effect_def update_thread_def)
    qed
  next
    case 4
    with inv show ?thesis
      by (auto simp: syscall_effect_def Let_def idle_thread_running_def split: option.splits)
  qed
qed

lemma syscall_trapa_idle:
  assumes "idle_thread_running s" "(which = 5 \<or> which = 6) \<longrightarrow> frames s current 4 \<noteq> 1"
  shows "idle_thread_running (snd (syscall_trapa current which s))"
  using syscall_effect_idle[OF assms]
  by (cases "syscall_effect current which s") (simp add: syscall_trapa_def)

lemma thread_create_idle:
  assumes inv: "idle_thread_running s"
      and c: "thread_create nm function param stack_mem new_state s = Inr (tid, s')"
  shows "idle_thread_running s'"
proof -
  from c obtain i t s1 where ci: "thread_create_internal nm 0 s = (Some (i, t), s1)"
    and s': "s' = s1\<lparr>threads := (threads s1)[i := Some (t\<lparr>stack := stack_mem, context := new_state\<rparr>)]\<rparr>"
    by (auto simp: thread_create_def split: prod.splits option.splits)
  note f = thread_create_internal_Some[OF ci]
  have "i \<noteq> 0"
  proof
    assume "i = 0"
    with f inv show False by (auto simp: idle_thread_running_iff)
  qed
  then obtain n where n: "i = Suc n" by (cases i) auto
  from inv f n s' show ?thesis by (auto simp: idle_thread_running_iff)
qed

lemma thread_destroy_idle:
  assumes inv: "idle_thread_running s" and "tid \<noteq> 1"
  shows "idle_thread_running (thread_destroy tid s)"
proof (cases "thread_find_by_id (threads s) tid")
  case None
  with inv show ?thesis by (simp add: thread_destroy_def)
next
  case (Some r)
  obtain i t where r: "r = (i, t)" by (cases r)
  from found_by_id_not_idle[OF inv Some[unfolded r] assms(2)] have "i \<noteq> 0" .
  from idle_thread_running_update[OF inv this] Some r show ?thesis
    by (simp add: thread_destroy_def)
qed

lemma apply_op_idle:
  assumes inv: "idle_thread_running s" and safe: "\<not> aimed_at 1 op" and ap: "apply_op op s = Inr s'"
  shows "idle_thread_running s'"
proof (cases "op")
  case (Trap current which r4 r5)
  let ?s = "set_gp_reg current 5 r5 (set_gp_reg current 4 r4 s)"
  have "frames ?s current 4 = r4" by (simp add: set_gp_reg_def)
  moreover have "idle_thread_running ?s" using inv by simp
  ultimately have "idle_thread_running (snd (syscall_trapa current which ?s))"
    using safe Trap by (intro syscall_trapa_idle) auto
  with ap Trap show ?thesis by simp
next
  case (ThreadCreate nm entry param stack_mem new_state)
  with ap obtain tid where "thread_create nm entry param stack_mem new_state s = Inr (tid, s')"
    by (auto split: sum.splits)
  from thread_create_idle[OF inv this] show ?thesis .
next
  case (ThreadDestroy tid)
  with safe ap thread_destroy_idle[OF inv, of tid] show ?thesis by auto
next
  case (CounterInit v mem)
  with ap inv show ?thesis
    by (auto simp: global_counter_init_def idle_thread_running_def split: option.splits if_splits)
next
  case (CounterFree c)
  with ap inv show ?thesis
    by (auto simp: global_counter_free_def idle_thread_running_def split: option.splits)
qed

lemma run_ops_idle:
  "idle_thread_running s \<Longrightarrow> \<forall>op\<in>set ops. \<not> aimed_at 1 op \<Longrightarrow> run_ops ops s = Inr s' \<Longrightarrow>
     idle_thread_running s'"
proof (induction ops arbitrary: s)
  case Nil
  then show ?case by simp
next
  case (Cons op ops)
  from Cons.prems(3) obtain s1 where s1: "apply_op op s = Inr s1" "run_ops ops s1 = Inr s'"
    by (auto split: sum.splits)
  from apply_op_idle[OF Cons.prems(1) _ s1(1)] Cons.prems(2) have "idle_thread_running s1" by simp
  from Cons.IH[OF this _ s1(2)] Cons.prems(2) show ?case by simp
qed

lemma thread_init_idle:
  assumes "thread_init max_threads max_global_counters stack_mem new_state s0 = Inr s"
  shows "idle_thread_running s"
proof -
  have "max_threads \<noteq> 0"
  proof
    assume "max_threads = 0"
    with assms show False by (simp add: thread_init_def thread_create_internal_def)
  qed
  then obtain n where n: "max_threads = Suc n" by (cases max_threads) auto
  with assms show ?thesis
    by (auto simp: thread_init_def thread_create_internal_def Let_def idle_thread_running_def)
qed

text \<open>
  C2, as amended. The idle thread made by \<^verbatim>\<open>_thread_init\<close> (first slot, id 1, priority
  \<^verbatim>\<open>INT_MIN\<close>) is Running, and it stays so, with its id and priority, through every run of
  operations (traps, \<^verbatim>\<open>thread_create\<close>, \<^verbatim>\<open>thread_destroy\<close>, counter creation and release)
  in which neither \<^verbatim>\<open>thread_stop\<close> (trap 5) nor \<^verbatim>\<open>thread_priority\<close> (trap 6) nor
  \<^verbatim>\<open>thread_destroy\<close> is called with the id of the idle thread.
\<close>

theorem idle_thread_stays_running:
  assumes init: "thread_init max_threads max_global_counters stack_mem new_state s0 = Inr s"
      and safe: "\<forall>op\<in>set ops. \<not> aimed_at 1 op"
      and run: "run_ops ops s = Inr s'"
  shows "\<exists>t rest. threads s' = Some t # rest \<and> id t = 1 \<and> priority t = INT_MIN
           \<and> state t = THREAD_STATE_RUNNING"
  using run_ops_idle[OF thread_init_idle[OF init] safe run]
  by (simp add: idle_thread_running_iff)

text \<open>
  C2 as stated fails: after \<^verbatim>\<open>_thread_init\<close>, a worker thread (id 2) that calls
  \<^verbatim>\<open>thread_stop(1)\<close> stops the idle thread, and once it stops itself too no thread of
  the table is Running.
\<close>

theorem stop_idle_thread:
  "thread_init 2 1 0x100 0x1000 boot_state = Inr booted_state
   \<and> map_sum Fun.id (map (map_option state) \<circ> threads) (run_ops stop_idle_ops booted_state)
       = Inr [Some THREAD_STATE_STOPPED, Some THREAD_STATE_STOPPED]
   \<and> map_sum Fun.id (map (map_option id) \<circ> threads) (run_ops stop_idle_ops booted_state)
       = Inr [Some 1, Some 2]"
proof (intro conjI)
  show "thread_init 2 1 0x100 0x1000 boot_state = Inr booted_state"
    by (rule thread_init_boot_state)
  show "map_sum Fun.id (map (map_option state) \<circ> threads) (run_ops stop_idle_ops booted_state)
       = Inr [Some THREAD_STATE_STOPPED, Some THREAD_STATE_STOPPED]"
    by (simp add: stop_idle_ops_def kernel_defs booted_state_def example_defs)
  show "map_sum Fun.id (map (map_option id) \<circ> threads) (run_ops stop_idle_ops booted_state)
       = Inr [Some 1, Some 2]"
    by (simp add: stop_idle_ops_def kernel_defs booted_state_def example_defs)
qed

text \<open>
  A run that creates, starts, re-prioritises, stops and destroys a worker leaves the idle
  thread Running.
\<close>

theorem idle_thread_stays_running_witness:
  "thread_init 2 1 0x100 0x1000 boot_state = Inr booted_state
   \<and> filter (aimed_at 1) harmless_ops = []
   \<and> (\<exists>s'. run_ops harmless_ops booted_state = Inr s'
         \<and> (\<exists>t rest. threads s' = Some t # rest \<and> id t = 1 \<and> priority t = INT_MIN
               \<and> state t = THREAD_STATE_RUNNING))"
proof -
  have safe: "\<forall>kop\<in>set harmless_ops. \<not> aimed_at 1 kop"
    by (simp add: harmless_ops_def)
  have "\<exists>s'. run_ops harmless_ops booted_state = Inr s'"
    by (simp add: harmless_ops_def kernel_defs booted_state_def example_defs)
  then obtain s' where run: "run_ops harmless_ops booted_state = Inr s'" ..
  from idle_thread_stays_running[OF thread_init_boot_state safe run] run
  have "\<exists>s'. run_ops harmless_ops booted_state = Inr s'
         \<and> (\<exists>t rest. threads s' = Some t # rest \<and> id t = 1 \<and> priority t = INT_MIN
               \<and> state t = THREAD_STATE_RUNNING)"
    by blast
  moreover have "filter (aimed_at 1) harmless_ops = []"
    by (simp add: harmless_ops_def)
  ultimately show ?thesis using thread_init_boot_state by blast
qed

subsection \<open>Counters and full tables\<close>

lemma global_counter_find_registered:
  "c \<noteq> 0 \<Longrightarrow> c \<in> set gs \<Longrightarrow> global_counter_find gs c = c"
  by (induction gs) auto

lemma global_counter_find_cases:
  "global_counter_find gs c = 0 \<or> global_counter_find gs c = c"
  by (induction gs) auto

lemma decrement_effect:
  assumes "c \<noteq> 0" "c \<in> set (global_counters s)" "frames s current 4 = c"
  shows "syscall_effect current 1 s =
           (if cells s c = 0 then s else s\<lparr>cells := (cells s)(c := cells s c - 1)\<rparr>,
            THREAD_SCHEDULE_CURRENT)"
  using assms global_counter_find_registered[OF assms(1,2)]
  by (simp add: syscall_effect_def Let_def word_greater_zero_iff)

lemma increment_effect:
  assumes "c \<noteq> 0" "c \<in> set (global_counters s)" "frames s current 4 = c"
  shows "syscall_effect current 0 s =
           (s\<lparr>cells := (cells s)(c := cells s c + 1)\<rparr>, THREAD_SCHEDULE_CURRENT)"
  using assms global_counter_find_registered[OF assms(1,2)]
  by (simp add: syscall_effect_def Let_def)

lemma counter_op_step:
  assumes reg: "c \<noteq> 0" "c \<in> set (global_counters s)"
      and op: "counter_op c kop"
      and le: "unat (cells s c) \<le> n"
  shows "\<exists>s'. apply_op kop s = Inr s' \<and> c \<in> set (global_counters s')
           \<and> unat (cells s' c) \<le> (if is_increment kop then Suc n else n - 1)"
proof (cases kop)
  case (Trap current which r4 r5)
  let ?s = "set_gp_reg current 5 r5 (set_gp_reg current 4 r4 s)"
  from op Trap have r4: "r4 = c" and w: "which = 0 \<or> which = 1" by auto
  have fr: "frames ?s current 4 = c" by (simp add: set_gp_reg_def r4)
  have gc: "global_counters ?s = global_counters s" by (simp add: set_gp_reg_def)
  have ce: "cells ?s = cells s" by (simp add: set_gp_reg_def)
  from reg gc have reg': "c \<in> set (global_counters ?s)" by simp
  from w show ?thesis
  proof
    assume w0: "which = 0"
    have "unat (cells s c + 1) \<le> Suc (unat (cells s c))"
      by (metis Suc_eq_plus1 unat_1 unat_add_lem unat_word_ariths(1) mod_less_eq_dividend)
    with le have "unat (cells s c + 1) \<le> Suc n" by simp
    with Trap w0 increment_effect[OF reg(1) reg' fr] gc ce reg show ?thesis
      by (simp add: syscall_trapa_def)
  next
    assume w1: "which = 1"
    have "cells s c \<noteq> 0 \<Longrightarrow> unat (cells s c - 1) = unat (cells s c) - 1"
      by (simp add: unat_minus_one)
    with le have "cells s c \<noteq> 0 \<Longrightarrow> unat (cells s c - 1) \<le> n - 1" by simp
    moreover have "cells s c = 0 \<Longrightarrow> unat (cells s c) \<le> n - 1" by simp
    ultimately show ?thesis
      using Trap w1 decrement_effect[OF reg(1) reg' fr] gc ce reg
      by (simp add: syscall_trapa_def)
  qed
qed (use op in simp_all)

lemma counter_ops_run:
  "c \<noteq> 0 \<Longrightarrow> c \<in> set (global_counters s) \<Longrightarrow> \<forall>kop\<in>set ops. counter_op c kop \<Longrightarrow>
   unat (cells s c) \<le> n \<Longrightarrow>
     \<exists>s'. run_ops ops s = Inr s'
       \<and> unat (cells s' c) \<le> n + length (filter is_increment ops)"
proof (induction ops arbitrary: s n)
  case Nil
  then show ?case by simp
next
  case (Cons kop ops)
  let ?b = "if is_increment kop then Suc n else n - 1"
  from counter_op_step[OF Cons.prems(1,2) _ Cons.prems(4), of kop] Cons.prems(3)
  obtain s1 where s1: "apply_op kop s = Inr s1" "c \<in> set (global_counters s1)"
    "unat (cells s1 c) \<le> ?b" by auto
  from Cons.IH[OF Cons.prems(1) s1(2) _ s1(3)] Cons.prems(3)
  obtain s' where run: "run_ops ops s1 = Inr s'"
    and le: "unat (cells s' c) \<le> ?b + length (filter is_increment ops)"
    by auto
  have "?b + length (filter is_increment ops) \<le> n + length (filter is_increment (kop # ops))"
    by simp
  with le have "unat (cells s' c) \<le> n + length (filter is_increment (kop # ops))"
    by (rule le_trans)
  with s1(1) run show ?case by simp
qed

text \<open>
  C8, as amended. For a counter registered in the table, the decrement trap leaves the
  value 0 as it is and takes exactly 1 off any other value; and after any run of
  increment and decrement traps on a counter that starts at 0, the value is not below 0
  and not above the number of increments of the run.
\<close>

theorem counter_decrement_saturates:
  assumes reg: "c \<noteq> 0" "c \<in> set (global_counters s)"
  shows "(frames s current 4 = c \<longrightarrow>
            cells (snd (syscall_trapa current 1 s)) c
              = (if cells s c = 0 then 0 else cells s c - 1))
       \<and> (cells s c = 0 \<and> (\<forall>kop\<in>set ops. counter_op c kop) \<longrightarrow>
            (\<exists>s'. run_ops ops s = Inr s' \<and> 0 \<le> unat (counter_value c s')
               \<and> unat (counter_value c s') \<le> length (filter is_increment ops)))"
proof (intro conjI impI)
  assume "frames s current 4 = c"
  from decrement_effect[OF reg this]
  show "cells (snd (syscall_trapa current 1 s)) c = (if cells s c = 0 then 0 else cells s c - 1)"
    by (simp add: syscall_trapa_def)
next
  assume a: "cells s c = 0 \<and> (\<forall>kop\<in>set ops. counter_op c kop)"
  then have "unat (cells s c) \<le> 0" by simp
  from counter_ops_run[OF reg _ this, of ops] a
  show "\<exists>s'. run_ops ops s = Inr s' \<and> 0 \<le> unat (counter_value c s')
               \<and> unat (counter_value c s') \<le> length (filter is_increment ops)"
    by (auto simp: counter_value_def)
qed

text \<open>
  C8 as stated fails: a decrement and then an increment on a counter at 0 leave the
  value 1, above the net number of increments of the run, which is 0.
\<close>

theorem counter_exceeds_net_increments:
  "cells counter_state 0x4000 = 0
   \<and> list_all (counter_op 0x4000) dec_inc_ops
   \<and> map_sum Fun.id (counter_value 0x4000) (run_ops dec_inc_ops counter_state) = Inr 1
   \<and> net_increments dec_inc_ops = 0"
  by (simp add: dec_inc_ops_def counter_state_def kernel_defs global_counter_find_def
      thread_schedule_def schedule_pick_def thread_find_by_context_def example_defs
      counter_value_def net_increments_def)

text \<open>
  Decrement, increment, increment, decrement on a counter at 0.
\<close>

theorem counter_decrement_saturates_witness:
  "(0x4000 :: 32 word) \<noteq> 0 \<and> 0x4000 \<in> set (global_counters counter_state)
   \<and> frames counter_state 0x1000 4 = 0x4000
   \<and> cells (snd (syscall_trapa 0x1000 1 counter_state)) 0x4000
       = (if cells counter_state 0x4000 = 0 then 0 else cells counter_state 0x4000 - 1)
   \<and> cells counter_state 0x4000 = 0 \<and> list_all (counter_op 0x4000) counter_ops
   \<and> (\<exists>s'. run_ops counter_ops counter_state = Inr s' \<and> 0 \<le> unat (counter_value 0x4000 s')
          \<and> unat (counter_value 0x4000 s') \<le> length (filter is_increment counter_ops))"
proof -
  have h1: "(0x4000 :: 32 word) \<noteq> 0" by simp
  have h2: "0x4000 \<in> set (global_counters counter_state)" by (simp add: counter_state_def)
  have h3: "frames counter_state 0x1000 4 = 0x4000" by (simp add: counter_state_def)
  have h4: "cells counter_state 0x4000 = 0 \<and> (\<forall>kop\<in>set counter_ops. counter_op 0x4000 kop)"
    by (simp add: counter_state_def counter_ops_def)
  note t = counter_decrement_saturates[OF h1 h2, of "0x1000" counter_ops]
  have h5: "list_all (counter_op 0x4000) counter_ops"
    by (simp add: counter_ops_def)
  from t[THEN conjunct1, rule_format, OF h3] t[THEN conjunct2, rule_format, OF h4] h1 h2 h3 h4 h5
  show ?thesis by blast
qed

lemma counter_ops_value:
  "map_sum Fun.id (counter_value 0x4000) (run_ops counter_ops counter_state) = Inr 1
   \<and> net_increments counter_ops = 0
   \<and> length (filter is_increment counter_ops) = 2"
  by (simp add: counter_ops_def counter_state_def kernel_defs global_counter_find_def
      thread_schedule_def schedule_pick_def thread_find_by_context_def example_defs
      counter_value_def net_increments_def)

lemma thread_create_full_table:
  "None \<notin> set (threads s) \<Longrightarrow>
     thread_create nm entry param stack_mem new_state s = Inl NullPointerAccess"
  using thread_create_internal_None[of nm 0 s]
  by (cases "thread_create_internal nm 0 s") (auto simp: thread_create_def)

lemma first_null_from_None:
  "first_null_from i gs = None \<longleftrightarrow> 0 \<notin> set gs"
  by (induction gs arbitrary: i) auto

lemma global_counter_init_full_table:
  "0 \<notin> set (global_counters s) \<Longrightarrow> global_counter_init initial_value mem s = Inr (0, s)"
  using first_null_from_None[of 0 "global_counters s"]
  by (simp add: global_counter_init_def)

text \<open>
  C4, at the failing input. With both thread slots and the one counter slot taken,
  \<^verbatim>\<open>global_counter_init\<close> returns the null pointer and leaves the state as it is, but
  \<^verbatim>\<open>thread_create\<close> writes through the null pointer that \<^verbatim>\<open>_thread_create\<close> returned.
\<close>

theorem thread_create_full_table_fault:
  "thread_create ''worker'' 0x8000 0 0x200 0x2000 full_state = Inl NullPointerAccess
   \<and> global_counter_init 7 0x5000 full_state = Inr (0, full_state)"
  by (simp add: kernel_defs full_state_def counter_state_def)

subsection \<open>Yielding\<close>

text \<open>
  C6. With the request OTHER, \<^verbatim>\<open>_thread_schedule\<close> returns a thread other than the
  current one whenever another Running thread of the band priority exists. With the idle
  thread and two Running threads A and B of priority 0, the request OTHER on A's context
  returns B's and on B's context returns A's; and when the idle thread is the only Running
  thread (and the only one of priority \<^verbatim>\<open>INT_MIN\<close>), the request OTHER on its context
  returns its own context.
\<close>

theorem thread_schedule_other:
  "(thread_find_by_context ts st = Some (cur, ct) \<and> j < length ts \<and> j \<noteq> cur \<and> ts ! j = Some t
      \<and> state t = THREAD_STATE_RUNNING
      \<and> priority t = schedule_priority ts cur THREAD_SCHEDULE_OTHER
    \<longrightarrow> (\<exists>k u. schedule_pick ts st THREAD_SCHEDULE_OTHER = Some (k, u) \<and> k \<noteq> cur
           \<and> k < length ts \<and> ts ! k = Some u
           \<and> priority u = schedule_priority ts cur THREAD_SCHEDULE_OTHER
           \<and> thread_schedule ts st THREAD_SCHEDULE_OTHER = context u))
   \<and> (priority idle = INT_MIN \<and> priority a = 0 \<and> priority b = 0
        \<and> state idle = THREAD_STATE_RUNNING \<and> state a = THREAD_STATE_RUNNING
        \<and> state b = THREAD_STATE_RUNNING \<and> distinct [context idle, context a, context b]
      \<longrightarrow> thread_schedule [Some idle, Some a, Some b] (context a) THREAD_SCHEDULE_OTHER = context b
        \<and> thread_schedule [Some idle, Some a, Some b] (context b) THREAD_SCHEDULE_OTHER = context a)
   \<and> (priority idle = INT_MIN \<and> state idle = THREAD_STATE_RUNNING
        \<and> (\<forall>t. Some t \<in> set rest \<longrightarrow> state t \<noteq> THREAD_STATE_RUNNING \<and> priority t \<noteq> INT_MIN)
      \<longrightarrow> thread_schedule (Some idle # rest) (context idle) THREAD_SCHEDULE_OTHER = context idle)"
proof (intro conjI impI)
  assume "thread_find_by_context ts st = Some (cur, ct) \<and> j < length ts \<and> j \<noteq> cur \<and> ts ! j = Some t
      \<and> state t = THREAD_STATE_RUNNING
      \<and> priority t = schedule_priority ts cur THREAD_SCHEDULE_OTHER"
  then show "\<exists>k u. schedule_pick ts st THREAD_SCHEDULE_OTHER = Some (k, u) \<and> k \<noteq> cur
           \<and> k < length ts \<and> ts ! k = Some u
           \<and> priority u = schedule_priority ts cur THREAD_SCHEDULE_OTHER
           \<and> thread_schedule ts st THREAD_SCHEDULE_OTHER = context u"
    using schedule_other_differs[of ts st cur ct j t] by blast
next
  assume a: "priority idle = INT_MIN \<and> priority a = 0 \<and> priority b = 0
        \<and> state idle = THREAD_STATE_RUNNING \<and> state a = THREAD_STATE_RUNNING
        \<and> state b = THREAD_STATE_RUNNING \<and> distinct [context idle, context a, context b]"
  with scenario_S1[of idle a b]
  show "thread_schedule [Some idle, Some a, Some b] (context a) THREAD_SCHEDULE_OTHER = context b"
    by blast
  from a scenario_S1[of idle a b]
  show "thread_schedule [Some idle, Some a, Some b] (context b) THREAD_SCHEDULE_OTHER = context a"
    by blast
next
  assume "priority idle = INT_MIN \<and> state idle = THREAD_STATE_RUNNING
        \<and> (\<forall>t. Some t \<in> set rest \<longrightarrow> state t \<noteq> THREAD_STATE_RUNNING \<and> priority t \<noteq> INT_MIN)"
  with scenario_S3[of idle rest]
  show "thread_schedule (Some idle # rest) (context idle) THREAD_SCHEDULE_OTHER = context idle"
    by blast
qed

text \<open>
  The table of scenario S1, and the idle thread next to a Stopped thread.
\<close>

theorem thread_schedule_other_witness:
  "(thread_find_by_context table_ab 0x2000 = Some (1, thread_a) \<and> 2 < length table_ab
      \<and> (2::nat) \<noteq> 1 \<and> table_ab ! 2 = Some thread_b \<and> state thread_b = THREAD_STATE_RUNNING
      \<and> priority thread_b = schedule_priority table_ab 1 THREAD_SCHEDULE_OTHER)
   \<and> (\<exists>k u. schedule_pick table_ab 0x2000 THREAD_SCHEDULE_OTHER = Some (k, u) \<and> k \<noteq> 1
           \<and> k < length table_ab \<and> table_ab ! k = Some u
           \<and> priority u = schedule_priority table_ab 1 THREAD_SCHEDULE_OTHER
           \<and> thread_schedule table_ab 0x2000 THREAD_SCHEDULE_OTHER = context u)
   \<and> (priority idle_thread = INT_MIN \<and> priority thread_a = 0 \<and> priority thread_b = 0
        \<and> state idle_thread = THREAD_STATE_RUNNING \<and> state thread_a = THREAD_STATE_RUNNING
        \<and> state thread_b = THREAD_STATE_RUNNING
        \<and> distinct [context idle_thread, context thread_a, context thread_b])
   \<and> thread_schedule [Some idle_thread, Some thread_a, Some thread_b] (context thread_a)
         THREAD_SCHEDULE_OTHER = context thread_b
   \<and> thread_schedule [Some idle_thread, Some thread_a, Some thread_b] (context thread_b)
         THREAD_SCHEDULE_OTHER = context thread_a
   \<and> (priority idle_thread = INT_MIN \<and> state idle_thread = THREAD_STATE_RUNNING
        \<and> state thread_b_stopped \<noteq> THREAD_STATE_RUNNING \<and> priority thread_b_stopped \<noteq> INT_MIN)
   \<and> thread_schedule (Some idle_thread # [Some thread_b_stopped, None]) (context idle_thread)
         THREAD_SCHEDULE_OTHER = context idle_thread"
proof -
  have h1: "thread_find_by_context table_ab 0x2000 = Some (1, thread_a) \<and> 2 < length table_ab
      \<and> (2::nat) \<noteq> 1 \<and> table_ab ! 2 = Some thread_b \<and> state thread_b = THREAD_STATE_RUNNING
      \<and> priority thread_b = schedule_priority table_ab 1 THREAD_SCHEDULE_OTHER"
    by (simp add: example_defs schedule_defs)
  have h2: "priority idle_thread = INT_MIN \<and> priority thread_a = 0 \<and> priority thread_b = 0
        \<and> state idle_thread = THREAD_STATE_RUNNING \<and> state thread_a = THREAD_STATE_RUNNING
        \<and> state thread_b = THREAD_STATE_RUNNING
        \<and> distinct [context idle_thread, context thread_a, context thread_b]"
    by (simp add: example_defs)
  have h3: "priority idle_thread = INT_MIN \<and> state idle_thread = THREAD_STATE_RUNNING
        \<and> (\<forall>t. Some t \<in> set [Some thread_b_stopped, None]
              \<longrightarrow> state t \<noteq> THREAD_STATE_RUNNING \<and> priority t \<noteq> INT_MIN)"
    by (simp add: example_defs)
  note t = thread_schedule_other[of table_ab "0x2000" 1 thread_a 2 thread_b
      idle_thread thread_a thread_b "[Some thread_b_stopped, None]"]
  note c1 = t[THEN conjunct1, rule_format, OF h1]
  note c2 = t[THEN conjunct2, THEN conjunct1, rule_format, OF h2]
  note c3 = t[THEN conjunct2, THEN conjunct2, rule_format, OF h3]
  have h4: "state thread_b_stopped \<noteq> THREAD_STATE_RUNNING \<and> priority thread_b_stopped \<noteq> INT_MIN"
    by (simp add: example_defs)
  from h1 c1 h2 c2 h3 h4 c3 show ?thesis by blast
qed

section \<open>Properties of the message codec\<close>

subsection \<open>Sending\<close>

lemma loop_condition:
  assumes "0 < mdl"
  shows "(k = 0 \<or> k * mdl < len) \<longleftrightarrow> k < fragment_count mdl len"
proof -
  have "k * mdl < len \<longleftrightarrow> k < (len + (mdl - 1)) div mdl"
  proof
    assume a: "k * mdl < len"
    then have "Suc k * mdl \<le> len + (mdl - 1)" using assms by simp
    then have "Suc k \<le> (len + (mdl - 1)) div mdl"
      using assms by (simp add: less_eq_div_iff_mult_less_eq)
    then show "k < (len + (mdl - 1)) div mdl" by simp
  next
    assume "k < (len + (mdl - 1)) div mdl"
    then have "Suc k \<le> (len + (mdl - 1)) div mdl" by simp
    then have "Suc k * mdl \<le> len + (mdl - 1)"
      using assms by (simp add: less_eq_div_iff_mult_less_eq)
    then show "k * mdl < len" using assms by simp
  qed
  then show ?thesis by (auto simp: fragment_count_def)
qed

lemma send_fragments_hand_over:
  assumes mdl: "0 < mdl"
  shows "k \<le> fragment_count mdl (length data) \<Longrightarrow>
     send_fragments packetlib_send mdl type sequence data (k * mdl) tr =
       Some (hand_over packetlib_send
               (map (\<lambda>j. fragment mdl type sequence data (j * mdl))
                    [k..<fragment_count mdl (length data)]) tr)"
proof (induction "fragment_count mdl (length data) - k" arbitrary: k tr)
  case 0
  then have k: "k = fragment_count mdl (length data)" by simp
  then have "\<not> (k * mdl = 0 \<or> k * mdl < length data)"
    using loop_condition[OF mdl, of k "length data"] mdl by simp
  then show ?case
    by (subst send_fragments.simps) (simp add: k)
next
  case (Suc m)
  then have lt: "k < fragment_count mdl (length data)" by simp
  then have cond: "k * mdl = 0 \<or> k * mdl < length data"
    using loop_condition[OF mdl, of k "length data"] mdl by auto
  have buf: "put_u16 type @ put_u16 sequence @ put_u16 (of_nat (length data))
               @ put_u16 (of_nat (k * mdl))
               @ take (if length data - k * mdl > mdl then mdl else length data - k * mdl)
                   (drop (k * mdl) data)
             = fragment mdl type sequence data (k * mdl)"
    by (simp add: fragment_def)
  have upt: "[k..<fragment_count mdl (length data)] = k # [Suc k..<fragment_count mdl (length data)]"
    using lt by (simp add: upt_conv_Cons)
  have ih: "\<And>tr'. send_fragments packetlib_send mdl type sequence data (k * mdl + mdl) tr' =
       Some (hand_over packetlib_send
               (map (\<lambda>j. fragment mdl type sequence data (j * mdl))
                    [Suc k..<fragment_count mdl (length data)]) tr')"
  proof -
    fix tr'
    have m: "m = fragment_count mdl (length data) - Suc k" using Suc.hyps(2) by simp
    have le: "Suc k \<le> fragment_count mdl (length data)" using lt by simp
    have "Suc k * mdl = k * mdl + mdl" by simp
    with Suc.hyps(1)[OF m le, of tr']
    show "send_fragments packetlib_send mdl type sequence data (k * mdl + mdl) tr' =
       Some (hand_over packetlib_send
               (map (\<lambda>j. fragment mdl type sequence data (j * mdl))
                    [Suc k..<fragment_count mdl (length data)]) tr')"
      by (simp only:)
  qed
  show ?case
    apply (subst send_fragments.simps)
    apply (simp only: cond if_True Let_def buf upt list.map hand_over.simps)
    apply (cases "packetlib_send tr (fragment mdl type sequence data (k * mdl))")
    apply (simp add: ih)
    done
qed

lemma send_fragments_eq:
  assumes "0 < mdl"
  shows "send_fragments packetlib_send mdl type sequence data 0 tr =
           Some (hand_over packetlib_send (fragments mdl type sequence data) tr)"
  using send_fragments_hand_over[OF assms, of 0 data packetlib_send type sequence tr]
  by (simp add: fragments_def)

lemma hand_over_limited_send:
  "hand_over limited_send ps (sent, n) =
     (length ps \<le> n, (sent @ take n ps, n - length ps))"
proof (induction ps arbitrary: sent n)
  case Nil
  then show ?case by simp
next
  case (Cons p ps)
  show ?case
  proof (cases n)
    case 0
    then show ?thesis by (simp add: limited_send_def)
  next
    case (Suc m)
    then show ?thesis using Cons.IH[of "sent @ [p]" m] by (simp add: limited_send_def)
  qed
qed

text \<open>
  C7. \<^verbatim>\<open>message_send\<close> returns -3 for a payload longer than 65535 bytes, with the transport
  and the sequence counter untouched. Otherwise (for a positive fragment size) it hands
  the fragments of the message to the transport one by one up to the first failure: if a
  send fails it returns -4, the transport is left as it is after the failing send (what
  went through before stays sent) and the sequence counter is unchanged; if all sends
  succeed it returns 0 and only then moves the sequence counter on. On a transport that
  lets \<open>n\<close> packets through this means: with fewer than all fragments let through, -4 and
  exactly the first \<open>n\<close> fragments sent.
\<close>

theorem message_send_errors:
  "(MAX_MESSAGE_LENGTH < length data \<longrightarrow>
      message_send packetlib_send mdl type data (sequence, tr) = Some (- 3, sequence, tr))
   \<and> (length data \<le> MAX_MESSAGE_LENGTH \<and> 0 < mdl \<longrightarrow>
        message_send packetlib_send mdl type data (sequence, tr) =
          Some (case hand_over packetlib_send (fragments mdl type sequence data) tr of
                  (True, tr') \<Rightarrow> (0, next_sequence sequence, tr')
                | (False, tr') \<Rightarrow> (- 4, sequence, tr')))
   \<and> (length data \<le> MAX_MESSAGE_LENGTH \<and> 0 < mdl
        \<and> n < length (fragments mdl type sequence data) \<longrightarrow>
        message_send limited_send mdl type data (sequence, (sent, n)) =
          Some (- 4, sequence, (sent @ take n (fragments mdl type sequence data), 0)))
   \<and> (length data \<le> MAX_MESSAGE_LENGTH \<and> 0 < mdl
        \<and> length (fragments mdl type sequence data) \<le> n \<longrightarrow>
        message_send limited_send mdl type data (sequence, (sent, n)) =
          Some (0, next_sequence sequence,
                (sent @ fragments mdl type sequence data,
                 n - length (fragments mdl type sequence data))))"
proof (intro conjI impI)
  assume "MAX_MESSAGE_LENGTH < length data"
  then show "message_send packetlib_send mdl type data (sequence, tr) = Some (- 3, sequence, tr)"
    by (simp add: message_send_def)
next
  assume a: "length data \<le> MAX_MESSAGE_LENGTH \<and> 0 < mdl"
  then show "message_send packetlib_send mdl type data (sequence, tr) =
          Some (case hand_over packetlib_send (fragments mdl type sequence data) tr of
                  (True, tr') \<Rightarrow> (0, next_sequence sequence, tr')
                | (False, tr') \<Rightarrow> (- 4, sequence, tr'))"
    by (simp add: message_send_def send_fragments_eq split: prod.splits bool.splits)
next
  assume a: "length data \<le> MAX_MESSAGE_LENGTH \<and> 0 < mdl
        \<and> n < length (fragments mdl type sequence data)"
  then show "message_send limited_send mdl type data (sequence, (sent, n)) =
          Some (- 4, sequence, (sent @ take n (fragments mdl type sequence data), 0))"
    by (simp add: message_send_def send_fragments_eq hand_over_limited_send)
next
  assume a: "length data \<le> MAX_MESSAGE_LENGTH \<and> 0 < mdl
        \<and> length (fragments mdl type sequence data) \<le> n"
  then show "message_send limited_send mdl type data (sequence, (sent, n)) =
          Some (0, next_sequence sequence,
                (sent @ fragments mdl type sequence data,
                 n - length (fragments mdl type sequence data)))"
    by (simp add: message_send_def send_fragments_eq hand_over_limited_send)
qed

lemma get_u16_put_u16: "get_u16 (put_u16 a @ r) 0 = a"
  apply (simp add: get_u16_def put_u16_def)
  apply (rule bit_word_eqI)
  apply (auto simp add: bit_simps)
  done

lemma length_put_u16 [simp]: "length (put_u16 v) = 2"
  by (simp add: put_u16_def)

lemma get_u16_append: "length a = n \<Longrightarrow> get_u16 (a @ r) (n + k) = get_u16 r k"
  by (simp add: get_u16_def nth_append)

lemma fragment_type: "get_u16 (fragment mdl type sequence data loc) MESSAGE_ID_LOC = type"
  by (simp add: fragment_def MESSAGE_ID_LOC_def get_u16_put_u16)

lemma fragment_sequence: "get_u16 (fragment mdl type sequence data loc) MESSAGE_SEQ_LOC = sequence"
  using get_u16_append[of "put_u16 type" 2 _ 0]
  by (simp add: fragment_def MESSAGE_SEQ_LOC_def get_u16_put_u16)

lemma fragment_length:
  "get_u16 (fragment mdl type sequence data loc) MESSAGE_LEN_LOC = of_nat (length data)"
  using get_u16_append[of "put_u16 type @ put_u16 sequence" 4 _ 0]
  by (simp add: fragment_def MESSAGE_LEN_LOC_def get_u16_put_u16)

lemma fragment_location:
  "get_u16 (fragment mdl type sequence data loc) MESSAGE_LOC_LOC = of_nat loc"
  using get_u16_append[of "put_u16 type @ put_u16 sequence @ put_u16 (of_nat (length data))" 6 _ 0]
  by (simp add: fragment_def MESSAGE_LOC_LOC_def get_u16_put_u16)

lemma fragment_data:
  "drop MESSAGE_DATA_LOC (fragment mdl type sequence data loc) = take mdl (drop loc data)"
  by (simp add: fragment_def MESSAGE_DATA_LOC_def)

lemma length_fragment:
  "length (fragment mdl type sequence data loc) = 8 + min mdl (length data - loc)"
  by (simp add: fragment_def)

lemma next_sequence_nonzero: "next_sequence sequence \<noteq> 0"
  by (simp add: next_sequence_def)

lemma next_sequence_of_nat:
  assumes "n < 65535"
  shows "(next_sequence ^^ n) 1 = (of_nat (Suc n) :: 16 word)"
  using assms
proof (induction n)
  case 0
  then show ?case by simp
next
  case (Suc n)
  then have ih: "(next_sequence ^^ n) 1 = (of_nat (Suc n) :: 16 word)" by simp
  have "unat (of_nat (Suc (Suc n)) :: 16 word) = Suc (Suc n)"
    using Suc.prems by (subst unat_of_nat) simp
  then have "(of_nat (Suc (Suc n)) :: 16 word) \<noteq> 0"
    by (metis Zero_not_Suc unat_0)
  then have nz: "(of_nat (Suc n) :: 16 word) + 1 \<noteq> 0" by simp
  have "(next_sequence ^^ Suc n) 1 = next_sequence ((next_sequence ^^ n) 1)" by simp
  also have "\<dots> = next_sequence (of_nat (Suc n))" by (simp only: ih)
  also have "\<dots> = of_nat (Suc n) + 1" using nz by (simp only: next_sequence_def if_False)
  also have "\<dots> = of_nat (Suc (Suc n))" by simp
  finally show ?case .
qed

lemma next_sequence_wraps: "(next_sequence ^^ 65535) sequence_initial = 1"
proof -
  have s: "(65535::nat) = Suc 65534" by simp
  have "(next_sequence ^^ 65534) 1 = (of_nat (Suc 65534) :: 16 word)"
    by (rule next_sequence_of_nat) simp
  then have "(next_sequence ^^ 65534) 1 = (65535 :: 16 word)" by simp
  then show ?thesis
    unfolding s funpow.simps o_apply sequence_initial_def
    by (simp add: next_sequence_def)
qed

lemma message_send_sequence:
  assumes "message_send packetlib_send mdl type data (sequence, tr) = Some (rc, sequence', tr')"
  shows "sequence' = (if rc = 0 then next_sequence sequence else sequence)"
  using assms
  by (auto simp: message_send_def split: if_splits option.splits prod.splits bool.splits)

lemma send_messages_sequence:
  "send_messages packetlib_send mdl ms (sequence, tr) = Some (rcs, sequence', tr') \<Longrightarrow>
     length rcs = length ms
     \<and> sequence' = (next_sequence ^^ length (filter (\<lambda>rc. rc = 0) rcs)) sequence"
proof (induction ms arbitrary: sequence tr rcs)
  case Nil
  then show ?case by simp
next
  case (Cons m ms)
  obtain type data where m: "m = (type, data)" by (cases m)
  from Cons.prems m obtain rc s1 tr1 rcs1 where
    one: "message_send packetlib_send mdl type data (sequence, tr) = Some (rc, s1, tr1)"
    and rest: "send_messages packetlib_send mdl ms (s1, tr1) = Some (rcs1, sequence', tr')"
    and rcs: "rcs = rc # rcs1"
    by (auto split: option.splits prod.splits)
  note s1 = message_send_sequence[OF one]
  from Cons.IH[OF rest] s1 rcs show ?case
    by (simp add: funpow_swap1)
qed

lemma fragments_payload7:
  "fragments 3 0x1234 1 payload7 =
     [[0x34, 0x12, 1, 0, 7, 0, 0, 0, 1, 2, 3], [0x34, 0x12, 1, 0, 7, 0, 3, 0, 4, 5, 6],
      [0x34, 0x12, 1, 0, 7, 0, 6, 0, 7]]"
  by (simp add: fragments_def fragment_count_def fragment_def payload7_def put_u16_def
      upt_rec)

text \<open>
  A payload of 65536 bytes, and a payload of 7 bytes in fragments of 3 on a transport that
  lets 2 and 4 packets through.
\<close>

theorem message_send_errors_witness:
  "MAX_MESSAGE_LENGTH < length (replicate 65536 (0 :: 8 word))
   \<and> message_send limited_send 3 0x1234 (replicate 65536 0) (1, ([], 5)) = Some (- 3, 1, ([], 5))
   \<and> (length payload7 \<le> MAX_MESSAGE_LENGTH \<and> (0::nat) < 3)
   \<and> message_send limited_send 3 0x1234 payload7 (1, ([], 2)) =
          Some (case hand_over limited_send (fragments 3 0x1234 1 payload7) ([], 2) of
                  (True, tr') \<Rightarrow> (0, next_sequence 1, tr')
                | (False, tr') \<Rightarrow> (- 4, 1, tr'))
   \<and> 2 < length (fragments 3 0x1234 1 payload7)
   \<and> message_send limited_send 3 0x1234 payload7 (1, ([], 2)) =
          Some (- 4, 1, ([] @ take 2 (fragments 3 0x1234 1 payload7), 0))
   \<and> length (fragments 3 0x1234 1 payload7) \<le> 4
   \<and> message_send limited_send 3 0x1234 payload7 (1, ([], 4)) =
          Some (0, next_sequence 1,
                ([] @ fragments 3 0x1234 1 payload7, 4 - length (fragments 3 0x1234 1 payload7)))"
proof -
  have h1: "MAX_MESSAGE_LENGTH < length (replicate 65536 (0 :: 8 word))"
    by (simp add: MAX_MESSAGE_LENGTH_def)
  have h2: "length payload7 \<le> MAX_MESSAGE_LENGTH \<and> (0::nat) < 3"
    by (simp add: MAX_MESSAGE_LENGTH_def payload7_def)
  have h3: "2 < length (fragments 3 0x1234 1 payload7)"
    by (simp add: fragments_payload7)
  have h4: "length (fragments 3 0x1234 1 payload7) \<le> 4"
    by (simp add: fragments_payload7)
  note a = message_send_errors[of "replicate 65536 0" limited_send 3 "0x1234" 1 "([], 5)",
      THEN conjunct1, rule_format, OF h1]
  note t = message_send_errors[of payload7 limited_send 3 "0x1234" 1 "([], 2)" 2 "[]"]
  note b = t[THEN conjunct2, THEN conjunct1, rule_format, OF h2]
  note c = t[THEN conjunct2, THEN conjunct2, THEN conjunct1, rule_format, OF conjI[OF conjunct1[OF h2] conjI[OF conjunct2[OF h2] h3]]]
  note u = message_send_errors[of payload7 limited_send 3 "0x1234" 1 "([], 2)" 4 "[]"]
  note d = u[THEN conjunct2, THEN conjunct2, THEN conjunct2, rule_format, OF conjI[OF conjunct1[OF h2] conjI[OF conjunct2[OF h2] h4]]]
  from h1 a h2 b h3 c h4 d show ?thesis by blast
qed

lemma fragments_sequence:
  "p \<in> set (fragments mdl type sequence data) \<Longrightarrow> get_u16 p MESSAGE_SEQ_LOC = sequence"
  by (auto simp: fragments_def fragment_sequence)

lemma send_messages_quiet:
  assumes "0 < mdl"
  shows "send_messages (\<lambda>tr p. (0, tr)) mdl (replicate n (type, [])) (sequence, tr) =
           Some (replicate n 0, (next_sequence ^^ n) sequence, tr)"
proof (induction n arbitrary: sequence)
  case 0
  then show ?case by simp
next
  case (Suc n)
  have h: "hand_over (\<lambda>tr p. (0::int, tr)) ps tr = (True, tr)" for ps
    by (induction ps) auto
  have one: "message_send (\<lambda>tr p. (0, tr)) mdl type [] (sequence, tr)
               = Some (0, next_sequence sequence, tr)"
    using assms by (simp add: message_send_def send_fragments_eq h)
  show ?case
    using Suc.IH[of "next_sequence sequence"] one by (simp add: funpow_swap1)
qed

text \<open>
  C9. The sequence counter starts at 1. What \<^verbatim>\<open>message_send\<close> hands to the transport are
  the fragments of the message, each carrying the current sequence, which is not 0 when
  the counter is not 0; and after a send the counter is again not 0: unchanged after an
  error, and after a success one more, or 1 where that would be 0 (so the successor of
  65535 is 1, and the successor of any other value is that value plus one). After 65535
  successful sends from the start the counter is 1.
\<close>

theorem sequence_never_zero:
  "sequence_initial = 1
   \<and> (0 < mdl \<longrightarrow>
        send_fragments packetlib_send mdl type sequence data 0 tr
          = Some (hand_over packetlib_send (fragments mdl type sequence data) tr))
   \<and> (sequence \<noteq> 0 \<and> p \<in> set (fragments mdl type sequence data) \<longrightarrow>
        get_u16 p MESSAGE_SEQ_LOC = sequence \<and> get_u16 p MESSAGE_SEQ_LOC \<noteq> 0)
   \<and> (sequence \<noteq> 0
        \<and> message_send packetlib_send mdl type data (sequence, tr) = Some (rc, sequence', tr')
      \<longrightarrow> sequence' \<noteq> 0
        \<and> sequence' = (if rc = 0 then next_sequence sequence else sequence))
   \<and> next_sequence 0xFFFF = 1
   \<and> (sequence \<noteq> 0xFFFF \<longrightarrow> next_sequence sequence = sequence + 1)
   \<and> (length ms = 65535
        \<and> send_messages packetlib_send mdl ms (sequence_initial, tr) = Some (rcs, sequence'', tr'')
        \<and> set rcs \<subseteq> {0}
      \<longrightarrow> sequence'' = 1)"
proof (intro conjI impI)
  show "sequence_initial = 1" by (simp add: sequence_initial_def)
next
  assume "0 < mdl"
  then show "send_fragments packetlib_send mdl type sequence data 0 tr
          = Some (hand_over packetlib_send (fragments mdl type sequence data) tr)"
    by (rule send_fragments_eq)
next
  assume a: "sequence \<noteq> 0 \<and> p \<in> set (fragments mdl type sequence data)"
  then show "get_u16 p MESSAGE_SEQ_LOC = sequence" using fragments_sequence by blast
  with a show "get_u16 p MESSAGE_SEQ_LOC \<noteq> 0" by simp
next
  assume a: "sequence \<noteq> 0
        \<and> message_send packetlib_send mdl type data (sequence, tr) = Some (rc, sequence', tr')"
  then show eq: "sequence' = (if rc = 0 then next_sequence sequence else sequence)"
    using message_send_sequence[OF conjunct2[OF a]] by simp
  with a show "sequence' \<noteq> 0" by (simp add: next_sequence_nonzero)
next
  show "next_sequence 0xFFFF = 1" by (simp add: next_sequence_def)
next
  assume ne: "sequence \<noteq> 0xFFFF"
  have "sequence + 1 \<noteq> 0"
  proof
    assume z: "sequence + 1 = 0"
    have "sequence = (sequence + 1) - 1" by simp
    also have "\<dots> = 0xFFFF" by (simp only: z) simp
    finally show False using ne by simp
  qed
  then show "next_sequence sequence = sequence + 1" by (simp add: next_sequence_def)
next
  assume a: "length ms = 65535
        \<and> send_messages packetlib_send mdl ms (sequence_initial, tr) = Some (rcs, sequence'', tr'')
        \<and> set rcs \<subseteq> {0}"
  then have run: "send_messages packetlib_send mdl ms (sequence_initial, tr) = Some (rcs, sequence'', tr'')"
    by simp
  from a have "filter (\<lambda>rc. rc = 0) rcs = rcs" by (auto simp: filter_id_conv)
  with send_messages_sequence[OF run] a
  have "sequence'' = (next_sequence ^^ 65535) sequence_initial" by simp
  then show "sequence'' = 1" by (simp only: next_sequence_wraps)
qed

text \<open>
  The 7-byte payload again, and 65535 empty messages on a transport that takes everything.
\<close>

theorem sequence_never_zero_witness:
  "sequence_initial = 1
   \<and> (0::nat) < 3
   \<and> send_fragments limited_send 3 0x1234 1 payload7 0 ([], 5)
          = Some (hand_over limited_send (fragments 3 0x1234 1 payload7) ([], 5))
   \<and> ((1 :: 16 word) \<noteq> 0
        \<and> [0x34, 0x12, 1, 0, 7, 0, 3, 0, 4, 5, 6] \<in> set (fragments 3 0x1234 1 payload7))
   \<and> get_u16 [0x34, 0x12, 1, 0, 7, 0, 3, 0, 4, 5, 6] MESSAGE_SEQ_LOC = 1
   \<and> get_u16 [0x34, 0x12, 1, 0, 7, 0, 3, 0, 4, 5, 6] MESSAGE_SEQ_LOC \<noteq> 0
   \<and> message_send limited_send 3 0x1234 payload7 (1, ([], 2))
        = Some (- 4, 1, (take 2 (fragments 3 0x1234 1 payload7), 0))
   \<and> (1 :: 16 word) \<noteq> 0
   \<and> (1 :: 16 word) = (if (- 4 :: int) = 0 then next_sequence 1 else 1)
   \<and> next_sequence 0xFFFF = 1
   \<and> (1 :: 16 word) \<noteq> 0xFFFF
   \<and> next_sequence 1 = 1 + 1
   \<and> length (replicate 65535 (0x1234 :: 16 word, [] :: 8 word list)) = 65535
   \<and> send_messages (\<lambda>tr p. (0, tr)) 3 (replicate 65535 (0x1234, [])) (sequence_initial, ())
        = Some (replicate 65535 0, 1, ())
   \<and> set (replicate 65535 (0 :: int)) \<subseteq> {0}"
proof -
  note t = sequence_never_zero[of 3 limited_send "0x1234" 1 payload7 "([], 5)"
      "[0x34, 0x12, 1, 0, 7, 0, 3, 0, 4, 5, 6]"]
  have h1: "(0::nat) < 3" by simp
  have h2: "(1 :: 16 word) \<noteq> 0
        \<and> [0x34, 0x12, 1, 0, 7, 0, 3, 0, 4, 5, 6] \<in> set (fragments 3 0x1234 1 payload7)"
    by (simp add: fragments_payload7)
  have h3: "message_send limited_send 3 0x1234 payload7 (1, ([], 2))
        = Some (- 4, 1, (take 2 (fragments 3 0x1234 1 payload7), 0))"
  proof -
    have "\<not> MAX_MESSAGE_LENGTH < length payload7"
      by (simp add: MAX_MESSAGE_LENGTH_def payload7_def)
    then show ?thesis
      by (simp add: message_send_def send_fragments_eq fragments_payload7 limited_send_def)
  qed
  have h4: "send_messages (\<lambda>tr p. (0, tr)) 3 (replicate 65535 (0x1234, [])) (sequence_initial, ())
        = Some (replicate 65535 0, 1, ())"
    using send_messages_quiet[of 3 65535 "0x1234" sequence_initial "()"]
    by (simp only: next_sequence_wraps)
  have h5: "length (replicate 65535 (0x1234 :: 16 word, [] :: 8 word list)) = 65535" by simp
  have h6: "set (replicate 65535 (0 :: int)) \<subseteq> {0}" by simp
  note c0 = t[THEN conjunct1]
  note c1 = t[THEN conjunct2, THEN conjunct1, rule_format, OF h1]
  note c2 = t[THEN conjunct2, THEN conjunct2, THEN conjunct1, rule_format, OF h2]
  note u = sequence_never_zero[of 3 limited_send "0x1234" 1 payload7 "([], 2)" _ "- 4" 1
      "(take 2 (fragments 3 0x1234 1 payload7), 0)"]
  note c3 = u[THEN conjunct2, THEN conjunct2, THEN conjunct2, THEN conjunct1, rule_format,
      OF conjI[OF conjunct1[OF h2] h3]]
  note c4 = t[THEN conjunct2, THEN conjunct2, THEN conjunct2, THEN conjunct2, THEN conjunct1]
  note v = sequence_never_zero[where ms="replicate 65535 (0x1234, [])"
      and packetlib_send="\<lambda>tr p. (0, tr)" and mdl=3 and tr="()" and rcs="replicate 65535 0"
      and sequence''=1 and tr''="()"]
  note c5 = v[THEN conjunct2, THEN conjunct2, THEN conjunct2, THEN conjunct2, THEN conjunct2,
      THEN conjunct2, rule_format, OF conjI[OF h5 conjI[OF h4 h6]]]
  have h7: "(1 :: 16 word) \<noteq> 0xFFFF" by simp
  note c6 = t[THEN conjunct2, THEN conjunct2, THEN conjunct2, THEN conjunct2, THEN conjunct2,
      THEN conjunct1, rule_format, OF h7]
  from c0 h1 c1 h2 c2 h3 c3 c4 h7 c6 h5 h4 h6 c5 show ?thesis by blast
qed

subsection \<open>Receiving\<close>

lemma scan_packet_window:
  assumes "scan_packet mdl pkt (w, tab) = Inr (w', tab')"
  shows "w' = (case w ! pkt of None \<Rightarrow> w
               | Some p \<Rightarrow> if bogus_packet p then w[pkt := None] else w)"
proof (cases "w ! pkt")
  case None
  with assms show ?thesis by (simp add: scan_packet_def packetlib_peek_def)
next
  case (Some p)
  show ?thesis
  proof (cases "bogus_packet p")
    case True
    with Some assms show ?thesis
      by (auto simp: scan_packet_def packetlib_peek_def packetlib_discard_def bogus_packet_def
          Let_def split: if_splits)
  next
    case False
    with Some assms show ?thesis
      by (auto simp: scan_packet_def packetlib_peek_def bogus_packet_def Let_def
          split: if_splits option.splits sum.splits prod.splits)
  qed
qed

lemma scan_packets_window:
  "scan_packets mdl pkts (w, tab) = Inr (w', tab') \<Longrightarrow>
     length w' = length w \<and>
     (\<forall>i<length w. w' ! i =
        (case w ! i of None \<Rightarrow> None
         | Some p \<Rightarrow> if i \<in> set pkts \<and> bogus_packet p then None else Some p))"
proof (induction pkts arbitrary: w tab)
  case Nil
  then show ?case by (auto split: option.splits)
next
  case (Cons pkt pkts)
  from Cons.prems obtain w1 tab1 where
    one: "scan_packet mdl pkt (w, tab) = Inr (w1, tab1)"
    and rest: "scan_packets mdl pkts (w1, tab1) = Inr (w', tab')"
    by (auto split: sum.splits)
  note w1 = scan_packet_window[OF one]
  note ih = Cons.IH[OF rest]
  have len: "length w1 = length w" using w1 by (auto split: option.splits)
  show ?case
  proof (intro conjI allI impI)
    show "length w' = length w" using ih len by simp
  next
    fix i assume i: "i < length w"
    then have "w' ! i = (case w1 ! i of None \<Rightarrow> None
         | Some p \<Rightarrow> if i \<in> set pkts \<and> bogus_packet p then None else Some p)"
      using ih len by simp
    moreover have "w1 ! i = (case w ! i of None \<Rightarrow> None
         | Some p \<Rightarrow> if i = pkt \<and> bogus_packet p then None else Some p)"
      using w1 i by (cases "i = pkt") (auto split: option.splits)
    ultimately show "w' ! i = (case w ! i of None \<Rightarrow> None
         | Some p \<Rightarrow> if i \<in> set (pkt # pkts) \<and> bogus_packet p then None else Some p)"
      by (auto split: option.splits)
  qed
qed

lemma scan_packets_toss_bogus:
  assumes "scan_packets mdl [0..<length w] (w, tab) = Inr (w', tab')"
  shows "w' = toss_bogus w"
proof (rule nth_equalityI)
  note s = scan_packets_window[OF assms]
  show "length w' = length (toss_bogus w)" using s by (simp add: toss_bogus_def)
  fix i assume "i < length w'"
  with s show "w' ! i = toss_bogus w ! i"
    by (auto simp: toss_bogus_def split: option.splits)
qed

text \<open>
  C3, as amended. \<^verbatim>\<open>message_recv\<close> returns 0 or -5, and -5 exactly when the table built
  from the window has no complete sequence. When it returns -5 the caller's variables
  are untouched and the window is the old one without its bogus packets: every slot
  holding a packet with a full header and a sequence other than 0 still holds it, and
  every slot holding a packet shorter than the header or of sequence 0 is discarded.
\<close>

theorem message_recv_not_ready:
  assumes "message_recv mdl w vars = Inr (rc, vars', w')"
  shows "(rc = 0 \<or> rc = - 5)
       \<and> (rc = - 5 \<longleftrightarrow>
            (\<exists>tab. scan_packets mdl [0..<length w] (w, replicate (length w) seen_empty)
                     = Inr (toss_bogus w, tab) \<and> find_ready mdl tab = Inr None))
       \<and> (rc = - 5 \<longrightarrow> vars' = vars \<and> w' = toss_bogus w
            \<and> (\<forall>i<length w. \<forall>p. w ! i = Some p \<and> \<not> bogus_packet p \<longrightarrow> w' ! i = Some p)
            \<and> (\<forall>i<length w. \<forall>p. w ! i = Some p \<and> bogus_packet p \<longrightarrow> w' ! i = None))"
proof -
  from assms obtain w1 tab where
    scan: "scan_packets mdl [0..<length w] (w, replicate (length w) seen_empty) = Inr (w1, tab)"
    by (auto simp: message_recv_def split: sum.splits)
  note w1 = scan_packets_toss_bogus[OF scan]
  from assms scan obtain r where r: "find_ready mdl tab = Inr r"
    by (auto simp: message_recv_def split: sum.splits)
  show ?thesis
  proof (cases r)
    case None
    with assms scan r w1 have "rc = - 5" "vars' = vars" "w' = toss_bogus w"
      by (auto simp: message_recv_def)
    moreover have "\<forall>i<length w. \<forall>p. w ! i = Some p \<and> \<not> bogus_packet p \<longrightarrow> toss_bogus w ! i = Some p"
      by (simp add: toss_bogus_def)
    moreover have "\<forall>i<length w. \<forall>p. w ! i = Some p \<and> bogus_packet p \<longrightarrow> toss_bogus w ! i = None"
      by (simp add: toss_bogus_def)
    ultimately show ?thesis using scan r None w1 by auto
  next
    case (Some e)
    with assms scan r have "rc = 0"
      by (auto simp: message_recv_def Let_def split: sum.splits)
    with scan r Some w1 show ?thesis by auto
  qed
qed

lemma message_recv_stale_window:
  "message_recv 3 stale_window no_vars
     = Inr (- 5, no_vars, [None, None, Some [0x34, 0x12, 1, 0, 7, 0, 3, 0, 4, 5, 6]])"
  by code_simp

lemma toss_bogus_stale_window:
  "toss_bogus stale_window = [None, None, Some [0x34, 0x12, 1, 0, 7, 0, 3, 0, 4, 5, 6]]"
  by code_simp

text \<open>
  C3 as stated fails: with a 3-byte packet, a packet of sequence 0 and one fragment of a
  three-fragment message in the window, \<^verbatim>\<open>message_recv\<close> returns -5 and the first two
  slots, non-empty before, are empty after.
\<close>

theorem message_recv_discards_bogus:
  "message_recv 3 stale_window no_vars
     = Inr (- 5, no_vars, [None, None, Some [0x34, 0x12, 1, 0, 7, 0, 3, 0, 4, 5, 6]])
   \<and> stale_window ! 0 = Some [1, 2, 3]
   \<and> stale_window ! 1 = Some [0x34, 0x12, 0, 0, 1, 0, 0, 0, 9]"
  using message_recv_stale_window by (simp add: stale_window_def)

text \<open>
  The same window: -5, and what is left is the window without its bogus packets.
\<close>

theorem message_recv_not_ready_witness:
  "message_recv 3 stale_window no_vars
     = Inr (- 5, no_vars, [None, None, Some [0x34, 0x12, 1, 0, 7, 0, 3, 0, 4, 5, 6]])
   \<and> ((- 5 :: int) = 0 \<or> (- 5 :: int) = - 5)
   \<and> no_vars = no_vars
   \<and> [None, None, Some [0x34, 0x12, 1, 0, 7, 0, 3, 0, 4, 5, 6]] = toss_bogus stale_window"
proof -
  note t = message_recv_not_ready[OF message_recv_stale_window]
  from t have a: "(- 5 :: int) = 0 \<or> (- 5 :: int) = - 5" by (rule conjunct1)
  from t have b: "[None, None, Some [0x34, 0x12, 1, 0, 7, 0, 3, 0, 4, 5, 6]] = toss_bogus stale_window"
    by blast
  from message_recv_stale_window a b show ?thesis by blast
qed

lemma marks_empty: "marks nn {} = replicate nn 0"
  by (simp add: marks_def map_replicate_const)

lemma length_marks [simp]: "length (marks nn K) = nn"
  by (simp add: marks_def)

lemma marks_insert: "k < nn \<Longrightarrow> (marks nn K)[k := 1] = marks nn (insert k K)"
  by (rule nth_equalityI) (auto simp: marks_def nth_list_update)

lemma marks_full: "{k. k < nn} \<subseteq> K \<Longrightarrow> marks nn K = replicate nn 1"
  by (rule nth_equalityI) (auto simp: marks_def)

lemma unat_length_word:
  "len \<le> MAX_MESSAGE_LENGTH \<Longrightarrow> unat (of_nat len :: 16 word) = len"
  by (simp add: MAX_MESSAGE_LENGTH_def unat_of_nat)

lemma packets_needed_length:
  "len \<le> MAX_MESSAGE_LENGTH \<Longrightarrow>
     packets_needed mdl (of_nat len) = (len + (mdl - 1)) div mdl"
  by (simp add: packets_needed_def unat_length_word)

lemma fragment_count_needed:
  assumes "0 < mdl" "0 < len"
  shows "fragment_count mdl len = (len + (mdl - 1)) div mdl" "0 < (len + (mdl - 1)) div mdl"
proof -
  from assms show pos: "0 < (len + (mdl - 1)) div mdl"
    by (simp add: div_greater_zero_iff)
  then show "fragment_count mdl len = (len + (mdl - 1)) div mdl"
    by (simp add: fragment_count_def)
qed

lemma fragment_count_empty: "0 < mdl \<Longrightarrow> fragment_count mdl 0 = 1 \<and> (0 + (mdl - 1)) div mdl = 0"
  by (simp add: fragment_count_def)

lemma fragment_offset_bound:
  assumes "0 < mdl" "k < fragment_count mdl len"
  shows "k = 0 \<or> k * mdl < len"
  using loop_condition[OF assms(1), of k len] assms(2) by simp

lemma unat_offset_word:
  assumes "0 < mdl" "len \<le> MAX_MESSAGE_LENGTH" "k < fragment_count mdl len"
  shows "unat (of_nat (k * mdl) :: 16 word) = k * mdl"
proof -
  from fragment_offset_bound[OF assms(1,3)] assms(2) have "k * mdl < 65536"
    by (auto simp: MAX_MESSAGE_LENGTH_def)
  then show ?thesis by (simp add: unat_of_nat del: of_nat_mult)
qed

lemma fragment_slot:
  assumes "0 < mdl" "length data \<le> MAX_MESSAGE_LENGTH" "k < fragment_count mdl (length data)"
  shows "unat (get_u16 (fragment mdl type sequence data (k * mdl)) MESSAGE_LOC_LOC) div mdl = k"
  using assms by (simp add: fragment_location unat_offset_word del: of_nat_mult)

lemma fragment_not_bogus:
  "sequence \<noteq> 0 \<Longrightarrow> \<not> bogus_packet (fragment mdl type sequence data loc)"
  by (simp add: bogus_packet_def fragment_sequence length_fragment MESSAGE_HEADER_LENGTH_def)

lemma fragment_inj:
  assumes "0 < mdl" "length data \<le> MAX_MESSAGE_LENGTH"
    "k < fragment_count mdl (length data)" "k' < fragment_count mdl (length data)"
    "fragment mdl type sequence data (k * mdl) = fragment mdl type sequence data (k' * mdl)"
  shows "k = k'"
proof -
  have "k = unat (get_u16 (fragment mdl type sequence data (k * mdl)) MESSAGE_LOC_LOC) div mdl"
    by (simp only: fragment_slot[OF assms(1,2,3)])
  also have "\<dots> = unat (get_u16 (fragment mdl type sequence data (k' * mdl)) MESSAGE_LOC_LOC) div mdl"
    by (simp only: assms(5))
  also have "\<dots> = k'"
    by (simp only: fragment_slot[OF assms(1,2,4)])
  finally show ?thesis .
qed

lemma mark_position_entry:
  assumes "0 < nn" "k < nn"
  shows "mark_position (seen_entry s l nn K # rest) 0 k = Inr (seen_entry s l nn (insert k K) # rest)"
  using assms by (simp add: mark_position_def seen_entry_def marks_insert)

lemma seen_entry_no_positions:
  "seen_entry s l 0 K = seen_entry s l 0 K'"
  by (simp add: seen_entry_def)

lemma seen_index_from_empty:
  assumes "sequence \<noteq> 0"
  shows "seen_index_from 0 (seen_empty # rest) sequence l nn = Some (0, seen_entry sequence l nn {})"
  using assms by (auto simp: seen_empty_def seen_entry_def marks_empty)

lemma seen_index_from_entry:
  "seen_index_from 0 (seen_entry sequence l nn K # rest) sequence l' nn'
     = Some (0, seen_entry sequence l nn K)"
  by (simp add: seen_entry_def)

lemma needed_index_bound:
  assumes "0 < mdl" "length data \<le> MAX_MESSAGE_LENGTH" "k < fragment_count mdl (length data)"
    "0 < packets_needed mdl (of_nat (length data))"
  shows "k < packets_needed mdl (of_nat (length data))"
proof (cases "length data = 0")
  case True
  with assms show ?thesis by (simp add: packets_needed_def)
next
  case False
  with fragment_count_needed(1)[OF assms(1), of "length data"] assms(2,3)
  show ?thesis by (simp add: packets_needed_length)
qed

lemma scan_packet_entry:
  assumes mdl: "0 < mdl" and len: "length data \<le> MAX_MESSAGE_LENGTH" and seq: "sequence \<noteq> 0"
      and k: "k < fragment_count mdl (length data)"
      and slot: "w ! i = Some (fragment mdl type sequence data (k * mdl))"
      and nn: "nn = packets_needed mdl (of_nat (length data))"
      and idx: "seen_index_from 0 (e0 # rest) sequence (of_nat (length data)) nn
                  = Some (0, seen_entry sequence (of_nat (length data)) nn K)"
  shows "scan_packet mdl i (w, e0 # rest)
           = Inr (w, seen_entry sequence (of_nat (length data)) nn (insert k K) # rest)"
proof -
  let ?p = "fragment mdl type sequence data (k * mdl)"
  have hdr: "\<not> length ?p < MESSAGE_HEADER_LENGTH"
    by (simp add: length_fragment MESSAGE_HEADER_LENGTH_def)
  have sq: "get_u16 ?p MESSAGE_SEQ_LOC = sequence" by (rule fragment_sequence)
  have ln: "get_u16 ?p MESSAGE_LEN_LOC = of_nat (length data)" by (rule fragment_length)
  have lc: "unat (get_u16 ?p MESSAGE_LOC_LOC) div mdl = k" by (rule fragment_slot[OF mdl len k])
  have body: "scan_packet mdl i (w, e0 # rest) =
      (if nn > 0
       then (case mark_position (seen_entry sequence (of_nat (length data)) nn K # rest) 0 k of
               Inl f \<Rightarrow> Inl f | Inr tab' \<Rightarrow> Inr (w, tab'))
       else Inr (w, seen_entry sequence (of_nat (length data)) nn K # rest))"
    using mdl seq
    by (simp add: scan_packet_def packetlib_peek_def slot hdr sq ln lc Let_def nn[symmetric] idx
        del: seen_index_from.simps)
  show ?thesis
  proof (cases "nn > 0")
    case True
    with needed_index_bound[OF mdl len k] nn have "k < nn" by simp
    with True body show ?thesis by (simp add: mark_position_entry)
  next
    case False
    then have "nn = 0" by simp
    with body seen_entry_no_positions[of sequence "of_nat (length data)" K "insert k K"]
    show ?thesis by simp
  qed
qed

lemma scan_packet_first:
  assumes "0 < mdl" "length data \<le> MAX_MESSAGE_LENGTH" "sequence \<noteq> 0"
      "k < fragment_count mdl (length data)"
      "w ! i = Some (fragment mdl type sequence data (k * mdl))"
      "nn = packets_needed mdl (of_nat (length data))"
  shows "scan_packet mdl i (w, seen_empty # rest)
           = Inr (w, seen_entry sequence (of_nat (length data)) nn {k} # rest)"
  using scan_packet_entry[OF assms seen_index_from_empty[OF assms(3)]] .

lemma scan_packet_next:
  assumes "0 < mdl" "length data \<le> MAX_MESSAGE_LENGTH" "sequence \<noteq> 0"
      "k < fragment_count mdl (length data)"
      "w ! i = Some (fragment mdl type sequence data (k * mdl))"
      "nn = packets_needed mdl (of_nat (length data))"
  shows "scan_packet mdl i (w, seen_entry sequence (of_nat (length data)) nn K # rest)
           = Inr (w, seen_entry sequence (of_nat (length data)) nn (insert k K) # rest)"
  using scan_packet_entry[OF assms seen_index_from_entry] .

lemma scan_packet_empty_slot:
  "w ! i = None \<Longrightarrow> scan_packet mdl i (w, tab) = Inr (w, tab)"
  by (simp add: scan_packet_def packetlib_peek_def)

lemma scan_packets_append:
  "scan_packets mdl (a @ b) st =
     (case scan_packets mdl a st of Inl f \<Rightarrow> Inl f | Inr st' \<Rightarrow> scan_packets mdl b st')"
  by (induction a arbitrary: st) (auto split: sum.splits)

lemma gather_packets_append:
  "gather_packets e (a @ b) st =
     (case gather_packets e a st of Inl f \<Rightarrow> Inl f | Inr st' \<Rightarrow> gather_packets e b st')"
  by (induction a arbitrary: st) (auto split: sum.splits)

lemma fragments_upto_empty:
  "\<forall>i<m. w ! i = None \<Longrightarrow> fragments_upto mdl type sequence data w m = {}"
  by (auto simp: fragments_upto_def)

lemma fragments_upto_Suc_empty:
  "w ! m = None \<Longrightarrow>
     fragments_upto mdl type sequence data w (Suc m) = fragments_upto mdl type sequence data w m"
  by (auto simp: fragments_upto_def less_Suc_eq)

lemma fragments_upto_Suc_fragment:
  assumes "0 < mdl" "length data \<le> MAX_MESSAGE_LENGTH" "k < fragment_count mdl (length data)"
    "w ! m = Some (fragment mdl type sequence data (k * mdl))"
  shows "fragments_upto mdl type sequence data w (Suc m)
           = insert k (fragments_upto mdl type sequence data w m)"
proof (rule set_eqI)
  fix j
  show "j \<in> fragments_upto mdl type sequence data w (Suc m)
          \<longleftrightarrow> j \<in> insert k (fragments_upto mdl type sequence data w m)"
  proof
    assume "j \<in> fragments_upto mdl type sequence data w (Suc m)"
    then obtain i where j: "j < fragment_count mdl (length data)" and i: "i < Suc m"
      and wi: "w ! i = Some (fragment mdl type sequence data (j * mdl))"
      by (auto simp: fragments_upto_def)
    show "j \<in> insert k (fragments_upto mdl type sequence data w m)"
    proof (cases "i = m")
      case True
      with wi assms(4) have "fragment mdl type sequence data (k * mdl)
                               = fragment mdl type sequence data (j * mdl)" by simp
      from fragment_inj[OF assms(1,2,3) j this] show ?thesis by simp
    next
      case False
      with i have "i < m" by simp
      with j wi show ?thesis by (auto simp: fragments_upto_def)
    qed
  next
    assume "j \<in> insert k (fragments_upto mdl type sequence data w m)"
    then show "j \<in> fragments_upto mdl type sequence data w (Suc m)"
      using assms(3,4) by (auto simp: fragments_upto_def less_Suc_eq)
  qed
qed

lemma fragments_upto_all:
  "all_fragments mdl type sequence data w \<Longrightarrow>
     fragments_upto mdl type sequence data w (length w) = {k. k < fragment_count mdl (length data)}"
  by (auto simp: fragments_upto_def all_fragments_def)

lemma scan_packets_fragments:
  assumes mdl: "0 < mdl" and len: "length data \<le> MAX_MESSAGE_LENGTH" and seq: "sequence \<noteq> 0"
      and only: "only_fragments mdl type sequence data w"
      and nn: "nn = packets_needed mdl (of_nat (length data))"
  shows "m \<le> length w \<Longrightarrow>
     scan_packets mdl [0..<m] (w, replicate (length w) seen_empty) =
       Inr (w, if \<forall>i<m. w ! i = None then replicate (length w) seen_empty
               else seen_entry sequence (of_nat (length data)) nn
                      (fragments_upto mdl type sequence data w m)
                    # replicate (length w - 1) seen_empty)"
proof (induction m)
  case 0
  then show ?case by simp
next
  case (Suc m)
  then have m: "m < length w" by simp
  then have rep: "replicate (length w) seen_empty = seen_empty # replicate (length w - 1) seen_empty"
    by (cases "length w") auto
  let ?K = "fragments_upto mdl type sequence data w"
  let ?E = "seen_entry sequence (of_nat (length data)) nn"
  let ?rest = "replicate (length w - 1) seen_empty"
  have ih: "scan_packets mdl [0..<m] (w, replicate (length w) seen_empty) =
       Inr (w, if \<forall>i<m. w ! i = None then replicate (length w) seen_empty else ?E (?K m) # ?rest)"
    using Suc.IH m by simp
  have step: "scan_packets mdl [0..<Suc m] (w, replicate (length w) seen_empty) =
       scan_packet mdl m (w, if \<forall>i<m. w ! i = None then replicate (length w) seen_empty
                               else ?E (?K m) # ?rest)"
    by (simp add: scan_packets_append ih split: sum.splits)
  show ?case
  proof (cases "w ! m")
    case None
    have "(\<forall>i<Suc m. w ! i = None) \<longleftrightarrow> (\<forall>i<m. w ! i = None)"
      using None by (auto simp: less_Suc_eq)
    then show ?thesis
      unfolding step
      by (simp only: scan_packet_empty_slot[OF None] fragments_upto_Suc_empty[OF None])
  next
    case (Some p)
    with only m obtain k where k: "k < fragment_count mdl (length data)"
      and p: "w ! m = Some (fragment mdl type sequence data (k * mdl))"
      by (auto simp: only_fragments_def)
    have notall: "\<not> (\<forall>i<Suc m. w ! i = None)" using Some by auto
    have res: "(if \<forall>i<Suc m. w ! i = None then X else Y) = Y" for X Y :: "seen list"
      by (rule if_not_P[OF notall])
    note Ksuc = fragments_upto_Suc_fragment[OF mdl len k p]
    show ?thesis
    proof (cases "\<forall>i<m. w ! i = None")
      case True
      have "scan_packet mdl m (w, seen_empty # ?rest) = Inr (w, ?E {k} # ?rest)"
        by (rule scan_packet_first[OF mdl len seq k p nn])
      moreover have "?K (Suc m) = {k}"
        using Ksuc fragments_upto_empty[OF True] by simp
      moreover have "(if \<forall>i<m. w ! i = None then X else Y) = X" for X Y :: "seen list"
        by (rule if_P[OF True])
      ultimately show ?thesis
        unfolding step res by (simp only: rep)
    next
      case False
      have "scan_packet mdl m (w, ?E (?K m) # ?rest) = Inr (w, ?E (insert k (?K m)) # ?rest)"
        by (rule scan_packet_next[OF mdl len seq k p nn])
      moreover have "(if \<forall>i<m. w ! i = None then X else Y) = Y" for X Y :: "seen list"
        by (rule if_not_P[OF False])
      ultimately show ?thesis
        unfolding step res by (simp only: Ksuc)
    qed
  qed
qed

lemma find_ready_entry:
  assumes mdl: "0 < mdl" and len: "length data \<le> MAX_MESSAGE_LENGTH" and seq: "sequence \<noteq> 0"
      and nn: "nn = packets_needed mdl (of_nat (length data))"
      and K: "{k. k < fragment_count mdl (length data)} \<subseteq> K"
  shows "find_ready mdl (seen_entry sequence (of_nat (length data)) nn K # rest)
           = Inr (Some (seen_entry sequence (of_nat (length data)) nn K))"
proof (cases "0 < nn")
  case True
  then have "length data \<noteq> 0" using nn mdl by (auto simp: packets_needed_def)
  then have "fragment_count mdl (length data) = nn"
    using fragment_count_needed(1)[OF mdl, of "length data"] nn len
    by (simp add: packets_needed_length)
  with K have "marks nn K = replicate nn 1" by (intro marks_full) simp
  with True mdl seq nn show ?thesis
    by (simp add: seen_entry_def positions_ready_def list_all_iff)
next
  case False
  with mdl seq nn show ?thesis
    by (simp add: seen_entry_def positions_ready_def)
qed

lemma div_eq_slot:
  assumes "0 < (mdl :: nat)"
  shows "j div mdl = k \<longleftrightarrow> k * mdl \<le> j \<and> j < k * mdl + mdl"
proof
  assume "j div mdl = k"
  then show "k * mdl \<le> j \<and> j < k * mdl + mdl"
    using assms dividend_less_div_times[of mdl j] div_times_less_eq_dividend[of j mdl]
    by (auto simp: ac_simps)
next
  assume "k * mdl \<le> j \<and> j < k * mdl + mdl"
  then show "j div mdl = k"
    by (intro div_nat_eqI) (auto simp: ac_simps)
qed

lemma length_filled [simp]: "length (filled mdl data K) = length data"
  by (simp add: filled_def)

lemma filled_empty: "filled mdl data {} = replicate (length data) None"
  by (simp add: filled_def map_replicate_const)

lemma filled_all:
  assumes "0 < mdl" "{k. k < fragment_count mdl (length data)} \<subseteq> K"
  shows "filled mdl data K = map Some data"
proof (rule nth_equalityI)
  show "length (filled mdl data K) = length (map Some data)" by simp
  fix j assume "j < length (filled mdl data K)"
  then have j: "j < length data" by simp
  have "(j div mdl) * mdl \<le> j" by simp
  with j have "(j div mdl) * mdl < length data" by linarith
  then have "j div mdl < fragment_count mdl (length data)"
    using loop_condition[OF assms(1), of "j div mdl" "length data"] by simp
  with assms(2) have "j div mdl \<in> K" by auto
  with j show "filled mdl data K ! j = map Some data ! j"
    by (simp add: filled_def)
qed

lemma nth_splice:
  assumes "a + length ys \<le> length xs" "j < length xs"
  shows "(take a xs @ ys @ drop (a + length ys) xs) ! j =
           (if j < a then xs ! j else if j < a + length ys then ys ! (j - a) else xs ! j)"
proof -
  have la: "length (take a xs) = a" using assms(1) by simp
  consider "j < a" | "a \<le> j \<and> j < a + length ys" | "a + length ys \<le> j" by linarith
  then show ?thesis
  proof cases
    case 1
    then show ?thesis by (simp add: nth_append la del: length_take)
  next
    case 2
    then have "j - a < length ys" by linarith
    with 2 show ?thesis by (simp add: nth_append la del: length_take)
  next
    case 3
    then have "\<not> j < a" "\<not> j - a < length ys" "\<not> j < a + length ys" by linarith+
    moreover have "a + length ys + (j - a - length ys) = j" using 3 by linarith
    ultimately show ?thesis using assms by (simp add: nth_append la del: length_take)
  qed
qed

lemma copy_into_filled:
  assumes mdl: "0 < mdl" and k: "k * mdl < length data"
  shows "copy_into (filled mdl data K) (k * mdl) (take mdl (drop (k * mdl) data))
           = Inr (filled mdl data (insert k K))"
proof -
  let ?a = "k * mdl"
  let ?chunk = "map Some (take mdl (drop ?a data))"
  let ?c = "min mdl (length data - ?a)"
  have c: "length (take mdl (drop ?a data)) = ?c" by simp
  have c': "length ?chunk = ?c" by simp
  have fit: "?a + ?c \<le> length data" using k by simp
  have fit': "?a + length ?chunk \<le> length (filled mdl data K)" using fit by simp
  have eq: "take ?a (filled mdl data K) @ ?chunk @ drop (?a + length ?chunk) (filled mdl data K)
            = filled mdl data (insert k K)"
  proof (rule nth_equalityI)
    show "length (take ?a (filled mdl data K) @ ?chunk
              @ drop (?a + length ?chunk) (filled mdl data K)) = length (filled mdl data (insert k K))"
      using fit k by simp
  next
    fix j
    assume "j < length (take ?a (filled mdl data K) @ ?chunk
              @ drop (?a + length ?chunk) (filled mdl data K))"
    then have j: "j < length data" using fit k by simp
    then have j': "j < length (filled mdl data K)" by simp
    note sp = nth_splice[OF fit' j']
    consider "j < ?a" | "?a \<le> j \<and> j < ?a + ?c" | "?a + ?c \<le> j" by linarith
    then show "(take ?a (filled mdl data K) @ ?chunk
              @ drop (?a + length ?chunk) (filled mdl data K)) ! j = filled mdl data (insert k K) ! j"
    proof cases
      case 1
      then have "j div mdl \<noteq> k" using div_eq_slot[OF mdl, of j k] by simp
      with 1 j show ?thesis unfolding sp by (simp add: filled_def)
    next
      case 2
      then have "k * mdl \<le> j \<and> j < k * mdl + mdl" by linarith
      then have d: "j div mdl = k" using div_eq_slot[OF mdl, of j k] by simp
      from 2 have "j - ?a < ?c" by linarith
      then have "?chunk ! (j - ?a) = Some (data ! j)" using 2 j by simp
      moreover from 2 have "\<not> j < ?a" "j < ?a + min (length data - ?a) mdl" by linarith+
      ultimately show ?thesis using j d unfolding sp by (simp add: filled_def)
    next
      case 3
      with j have cm: "?c = mdl" by (simp add: min_def split: if_splits)
      with 3 have far: "\<not> j < ?a + mdl" by linarith
      then have "j div mdl \<noteq> k" using div_eq_slot[OF mdl, of j k] by simp
      moreover from 3 have "\<not> j < ?a" "\<not> j < ?a + min (length data - ?a) mdl" by linarith+
      ultimately show ?thesis using j far unfolding sp by (simp add: filled_def)
    qed
  qed
  have "copy_into (filled mdl data K) ?a (take mdl (drop ?a data))
          = Inr (take ?a (filled mdl data K) @ ?chunk @ drop (?a + length ?chunk) (filled mdl data K))"
    unfolding copy_into_def using fit by simp
  with eq show ?thesis by simp
qed

lemma length_word_positive:
  "len \<le> MAX_MESSAGE_LENGTH \<Longrightarrow> (0 < (of_nat len :: 16 word)) \<longleftrightarrow> 0 < len"
  using unat_length_word[of len] by (metis gr0I unat_gt_0 of_nat_0 word_gt_0)

lemma gather_packet_fragment:
  assumes mdl: "0 < mdl" and len: "length data \<le> MAX_MESSAGE_LENGTH"
      and k: "k < fragment_count mdl (length data)"
      and slot: "w ! i = Some (fragment mdl type sequence data (k * mdl))"
  shows "gather_packet (seen_entry sequence (of_nat (length data)) nn K') i
           (w, tinit, if 0 < length data then Some (filled mdl data K) else None)
         = Inr (w[i := None], type,
                if 0 < length data then Some (filled mdl data (insert k K)) else None)"
proof -
  let ?p = "fragment mdl type sequence data (k * mdl)"
  let ?e = "seen_entry sequence (of_nat (length data)) nn K'"
  have hdr: "\<not> length ?p < MESSAGE_HEADER_LENGTH"
    by (simp add: length_fragment MESSAGE_HEADER_LENGTH_def)
  have sq: "get_u16 ?p MESSAGE_SEQ_LOC = seen_packet_sequences ?e"
    by (simp add: fragment_sequence seen_entry_def)
  have ty: "get_u16 ?p MESSAGE_ID_LOC = type" by (rule fragment_type)
  have lc: "unat (get_u16 ?p MESSAGE_LOC_LOC) = k * mdl"
    by (simp only: fragment_location unat_offset_word[OF mdl len k])
  have dt: "drop MESSAGE_DATA_LOC ?p = take mdl (drop (k * mdl) data)" by (rule fragment_data)
  have pos: "(0 < seen_packet_lengths ?e) \<longleftrightarrow> 0 < length data"
    using length_word_positive[OF len] by (simp add: seen_entry_def)
  show ?thesis
  proof (cases "0 < length data")
    case True
    with fragment_offset_bound[OF mdl k] have "k * mdl < length data" by auto
    note cp = copy_into_filled[OF mdl this, of K]
    show ?thesis
      using True pos
      by (simp add: gather_packet_def packetlib_peek_def packetlib_discard_def slot hdr sq ty
          lc dt cp Let_def del: seen_entry_def)
  next
    case False
    then show ?thesis
      using pos
      by (simp add: gather_packet_def packetlib_peek_def packetlib_discard_def slot
          length_fragment MESSAGE_HEADER_LENGTH_def fragment_sequence fragment_type
          seen_entry_def Let_def)
  qed
qed

lemma gather_packet_empty_slot:
  "w ! i = None \<Longrightarrow> gather_packet e i (w, tinit, buf) = Inr (w, tinit, buf)"
  by (simp add: gather_packet_def packetlib_peek_def)

lemma cleared_slot:
  assumes "m < length w"
  shows "(replicate m None @ drop m w)[m := None] = replicate (Suc m) None @ drop (Suc m) w"
proof -
  have "drop m w = w ! m # drop (Suc m) w" using assms by (simp add: Cons_nth_drop_Suc)
  then have "(replicate m None @ drop m w)[m := None]
               = replicate m None @ None # drop (Suc m) w"
    by (simp add: list_update_append)
  also have "\<dots> = replicate (Suc m) None @ drop (Suc m) w"
    by (simp add: replicate_app_Cons_same)
  finally show ?thesis .
qed

lemma cleared_empty_slot:
  assumes "m < length w" "w ! m = None"
  shows "replicate m None @ drop m w = replicate (Suc m) None @ drop (Suc m) w"
proof -
  have "drop m w = None # drop (Suc m) w"
    using assms Cons_nth_drop_Suc[of m w] by simp
  then show ?thesis by (simp add: replicate_app_Cons_same)
qed

lemma cleared_nth:
  "m < length w \<Longrightarrow> (replicate m None @ drop m w) ! m = w ! m"
  by (simp add: nth_append)

lemma gather_packets_single: "gather_packets e [i] st = gather_packet e i st"
  by (simp split: sum.splits)

lemma upt_snoc: "[0..<Suc m] = [0..<m] @ [m]"
  by simp

lemma gather_packets_fragments:
  assumes mdl: "0 < mdl" and len: "length data \<le> MAX_MESSAGE_LENGTH"
      and only: "only_fragments mdl type sequence data w"
  shows "m \<le> length w \<Longrightarrow>
     gather_packets (seen_entry sequence (of_nat (length data)) nn K') [0..<m]
       (w, tinit, if 0 < length data then Some (filled mdl data {}) else None) =
       Inr (replicate m None @ drop m w,
            if \<forall>i<m. w ! i = None then tinit else type,
            if 0 < length data
            then Some (filled mdl data (fragments_upto mdl type sequence data w m)) else None)"
proof (induction m)
  case 0
  then show ?case by (simp add: fragments_upto_def)
next
  case (Suc m)
  then have m: "m < length w" by simp
  let ?e = "seen_entry sequence (of_nat (length data)) nn K'"
  let ?K = "fragments_upto mdl type sequence data w"
  let ?buf = "\<lambda>K. if 0 < length data then Some (filled mdl data K) else None"
  let ?ty = "\<lambda>m. if \<forall>i<m. w ! i = None then tinit else type"
  let ?w = "\<lambda>m. replicate m None @ drop m w"
  have ih: "gather_packets ?e [0..<m] (w, tinit, ?buf {}) = Inr (?w m, ?ty m, ?buf (?K m))"
    using Suc.IH m by simp
  have step: "gather_packets ?e [0..<Suc m] (w, tinit, ?buf {})
                = gather_packet ?e m (?w m, ?ty m, ?buf (?K m))"
    by (simp only: upt_snoc gather_packets_append ih sum.case gather_packets_single)
  show ?case
  proof (cases "w ! m")
    case None
    have same: "(\<forall>i<Suc m. w ! i = None) \<longleftrightarrow> (\<forall>i<m. w ! i = None)"
      using None by (auto simp: less_Suc_eq)
    have slot: "?w m ! m = None" using cleared_nth[OF m] None by simp
    show ?thesis
      unfolding step gather_packet_empty_slot[OF slot]
      by (simp only: same fragments_upto_Suc_empty[OF None] cleared_empty_slot[OF m None])
  next
    case (Some p)
    with only m obtain k where k: "k < fragment_count mdl (length data)"
      and p: "w ! m = Some (fragment mdl type sequence data (k * mdl))"
      by (auto simp: only_fragments_def)
    have notall: "\<not> (\<forall>i<Suc m. w ! i = None)" using Some by auto
    have slot: "?w m ! m = Some (fragment mdl type sequence data (k * mdl))"
      using cleared_nth[OF m] p by simp
    note g = gather_packet_fragment[OF mdl len k slot, where nn=nn and K'=K' and tinit="?ty m"
        and K="?K m"]
    show ?thesis
      unfolding step g if_not_P[OF notall]
      by (simp only: cleared_slot[OF m] fragments_upto_Suc_fragment[OF mdl len k p])
  qed
qed

lemma message_recv_fragments:
  assumes mdl: "0 < mdl" and len: "length data \<le> MAX_MESSAGE_LENGTH" and seq: "sequence \<noteq> 0"
      and only: "only_fragments mdl type sequence data w"
      and all: "all_fragments mdl type sequence data w"
  shows "message_recv mdl w vars =
           Inr (0, \<lparr>rv_type = type,
                    rv_data = (if 0 < length data then Some (map Some data) else None),
                    rv_length = length data\<rparr>,
                replicate (length w) None)"
proof -
  let ?nn = "packets_needed mdl (of_nat (length data))"
  let ?K = "fragments_upto mdl type sequence data w (length w)"
  let ?e = "seen_entry sequence (of_nat (length data)) ?nn ?K"
  let ?rest = "replicate (length w - 1) seen_empty"
  have "0 < fragment_count mdl (length data)" by (simp add: fragment_count_def)
  with all obtain i where i: "i < length w" "w ! i \<noteq> None"
    by (auto simp: all_fragments_def)
  then have some: "\<not> (\<forall>i<length w. w ! i = None)" by auto
  have K: "?K = {k. k < fragment_count mdl (length data)}"
    by (rule fragments_upto_all[OF all])
  have scan: "scan_packets mdl [0..<length w] (w, replicate (length w) seen_empty)
                = Inr (w, ?e # ?rest)"
    using scan_packets_fragments[OF mdl len seq only refl, of "length w"]
    by (simp only: if_not_P[OF some] le_refl)
  have ready: "find_ready mdl (?e # ?rest) = Inr (Some ?e)"
    by (rule find_ready_entry[OF mdl len seq refl]) (simp add: K)
  have pos: "(0 < seen_packet_lengths ?e) \<longleftrightarrow> 0 < length data"
    using length_word_positive[OF len] by (simp add: seen_entry_def)
  have ln: "unat (seen_packet_lengths ?e) = length data"
    using unat_length_word[OF len] by (simp add: seen_entry_def)
  have gather: "gather_packets ?e [0..<length w]
                  (w, rv_type vars, if 0 < length data then Some (filled mdl data {}) else None)
                = Inr (replicate (length w) None, type,
                       if 0 < length data then Some (map Some data) else None)"
    using gather_packets_fragments[OF mdl len only, where m="length w" and nn="?nn" and K'="?K"
        and tinit="rv_type vars"]
    by (simp only: if_not_P[OF some] le_refl drop_all append_Nil2 filled_all[OF mdl eq_refl[OF K[symmetric]]])
  have buf0: "(if 0 < seen_packet_lengths ?e
               then Some (replicate (length data) None) else None)
              = (if 0 < length data then Some (filled mdl data {}) else None)"
    by (simp only: pos filled_empty)
  show ?thesis
    unfolding message_recv_def scan
    by (simp only: sum.case prod.case ready option.case Let_def buf0 gather ln length_replicate)
qed

lemma first_free_slot_filled:
  "first_free_slot i (map Some qs @ None # rest) = Some (i + length qs)"
  by (induction qs arbitrary: i) auto

lemma loopback_send_next:
  "loopback_send (map Some qs @ None # replicate r None) p
     = (0, map Some (qs @ [p]) @ replicate r None)"
  using first_free_slot_filled[of 0 qs "replicate r None"]
  by (simp add: loopback_send_def list_update_append)

lemma hand_over_loopback:
  "length ps \<le> r \<Longrightarrow>
     hand_over loopback_send ps (map Some qs @ replicate r None)
       = (True, map Some (qs @ ps) @ replicate (r - length ps) None)"
proof (induction ps arbitrary: qs r)
  case Nil
  then show ?case by simp
next
  case (Cons p ps)
  then obtain r' where r: "r = Suc r'" by (cases r) auto
  with Cons.prems have "length ps \<le> r'" by simp
  from Cons.IH[OF this, of "qs @ [p]"] show ?case
    by (simp add: r loopback_send_next del: map_append)
qed

lemma length_fragments [simp]:
  "length (fragments mdl type sequence data) = fragment_count mdl (length data)"
  by (simp add: fragments_def)

lemma message_send_loopback:
  assumes "length data \<le> MAX_MESSAGE_LENGTH" "0 < mdl" "fragment_count mdl (length data) \<le> n"
  shows "message_send loopback_send mdl type data (sequence, replicate n None) =
           Some (0, next_sequence sequence,
                 map Some (fragments mdl type sequence data)
                   @ replicate (n - fragment_count mdl (length data)) None)"
  using assms hand_over_loopback[of "fragments mdl type sequence data" n "[]"]
  by (simp add: message_send_def send_fragments_eq)

lemma window_only_fragments:
  assumes "set w \<subseteq> insert None (Some ` set (fragments mdl type sequence data))"
  shows "only_fragments mdl type sequence data w"
  unfolding only_fragments_def
proof (intro allI impI)
  fix i assume "i < length w"
  then have "w ! i \<in> set w" by simp
  with assms have "w ! i = None \<or> w ! i \<in> Some ` set (fragments mdl type sequence data)"
    by auto
  then show "w ! i = None \<or> (\<exists>k<fragment_count mdl (length data).
       w ! i = Some (fragment mdl type sequence data (k * mdl)))"
    by (auto simp: fragments_def)
qed

lemma window_all_fragments:
  assumes "Some ` set (fragments mdl type sequence data) \<subseteq> set w"
  shows "all_fragments mdl type sequence data w"
  unfolding all_fragments_def
proof (intro allI impI)
  fix k assume "k < fragment_count mdl (length data)"
  then have "fragment mdl type sequence data (k * mdl) \<in> set (fragments mdl type sequence data)"
    by (auto simp: fragments_def)
  with assms have "Some (fragment mdl type sequence data (k * mdl)) \<in> set w" by auto
  then show "\<exists>i<length w. w ! i = Some (fragment mdl type sequence data (k * mdl))"
    by (simp add: in_set_conv_nth)
qed

text \<open>
  C5. For every type and every payload of at most 65535 bytes (the empty one too),
  \<^verbatim>\<open>message_send\<close> on a loopback transport whose empty window has room for the fragments
  succeeds and leaves the fragments in the window; and \<^verbatim>\<open>message_recv\<close> on that window,
  or on any window holding the same slots in another order, returns 0 with the type, the
  length and a buffer holding exactly the payload (the null pointer for the empty
  payload), and leaves the window empty. The sequence counter is not 0 and the fragment
  size is positive.
\<close>

theorem message_round_trip:
  assumes len: "length data \<le> MAX_MESSAGE_LENGTH" and mdl: "0 < mdl" and seq: "sequence \<noteq> 0"
      and room: "fragment_count mdl (length data) \<le> n"
  shows "message_send loopback_send mdl type data (sequence, replicate n None) =
           Some (0, next_sequence sequence,
                 map Some (fragments mdl type sequence data)
                   @ replicate (n - fragment_count mdl (length data)) None)
       \<and> (\<forall>w. mset w = mset (map Some (fragments mdl type sequence data)
                               @ replicate (n - fragment_count mdl (length data)) None)
            \<longrightarrow> message_recv mdl w vars =
                  Inr (0, \<lparr>rv_type = type,
                           rv_data = (if 0 < length data then Some (map Some data) else None),
                           rv_length = length data\<rparr>,
                       replicate n None))"
proof (intro conjI allI impI)
  show "message_send loopback_send mdl type data (sequence, replicate n None) =
           Some (0, next_sequence sequence,
                 map Some (fragments mdl type sequence data)
                   @ replicate (n - fragment_count mdl (length data)) None)"
    by (rule message_send_loopback[OF len mdl room])
next
  fix w
  let ?sent = "map Some (fragments mdl type sequence data)
                 @ replicate (n - fragment_count mdl (length data)) None"
  assume perm: "mset w = mset ?sent"
  then have "set w = set ?sent" by (rule mset_eq_setD)
  then have only: "only_fragments mdl type sequence data w"
    and all: "all_fragments mdl type sequence data w"
    by (auto intro!: window_only_fragments window_all_fragments)
  from perm have "length w = length ?sent" by (rule mset_eq_length)
  with room have n: "length w = n" by simp
  show "message_recv mdl w vars =
                  Inr (0, \<lparr>rv_type = type,
                           rv_data = (if 0 < length data then Some (map Some data) else None),
                           rv_length = length data\<rparr>,
                       replicate n None)"
    using message_recv_fragments[OF mdl len seq only all, of vars] by (simp only: n)
qed

text \<open>
  The 7-byte payload in fragments of 3 through a window of 4 slots, received out of order.
\<close>

theorem message_round_trip_witness:
  "length payload7 \<le> MAX_MESSAGE_LENGTH \<and> (0::nat) < 3 \<and> (1 :: 16 word) \<noteq> 0
   \<and> fragment_count 3 (length payload7) \<le> 4
   \<and> message_send loopback_send 3 0x1234 payload7 (1, replicate 4 None) =
           Some (0, next_sequence 1,
                 map Some (fragments 3 0x1234 1 payload7)
                   @ replicate (4 - fragment_count 3 (length payload7)) None)
   \<and> mset shuffled_window = mset (map Some (fragments 3 0x1234 1 payload7)
                               @ replicate (4 - fragment_count 3 (length payload7)) None)
   \<and> message_recv 3 shuffled_window no_vars =
         Inr (0, \<lparr>rv_type = 0x1234,
                  rv_data = (if 0 < length payload7 then Some (map Some payload7) else None),
                  rv_length = length payload7\<rparr>,
              replicate 4 None)"
proof -
  have h1: "length payload7 \<le> MAX_MESSAGE_LENGTH"
    by (simp add: payload7_def MAX_MESSAGE_LENGTH_def)
  have h2: "(0::nat) < 3" by simp
  have h3: "(1 :: 16 word) \<noteq> 0" by simp
  have fc: "fragment_count 3 (length payload7) = 3"
    by (simp add: payload7_def fragment_count_def)
  have h4: "fragment_count 3 (length payload7) \<le> 4" by (simp add: fc)
  have h5: "mset shuffled_window = mset (map Some (fragments 3 0x1234 1 payload7)
                               @ replicate (4 - fragment_count 3 (length payload7)) None)"
    by (simp add: fc fragments_payload7 shuffled_window_def)
  note t = message_round_trip[OF h1 h2 h3 h4, of "0x1234" no_vars]
  note sent = t[THEN conjunct1]
  note recv = t[THEN conjunct2, rule_format, OF h5]
  from h1 h2 h3 h4 sent h5 recv show ?thesis by (intro conjI)
qed

end
